theory Spec2Isabelle
  imports Complex_Main "HOL-Library.Word"
begin

unbundle bit_operations_syntax

section \<open>Typed arrays and the store\<close>

text \<open>
  A \<^verbatim>\<open>Uint8Array\<close> is a fixed-length buffer of bytes. Estimators hold a reference to
  their register buffer, and \<^verbatim>\<open>getRegisters\<close>/\<^verbatim>\<open>setRegisters\<close> hand that reference out
  and in, so buffers live in a store and are named by their position in it. A new
  buffer is appended to the store.
\<close>

type_synonym byte = "8 word"
type_synonym ref = nat
type_synonym store = "byte list list"

text \<open>
  Reading \<^verbatim>\<open>a[i]\<close> from a typed array or an array: \<^verbatim>\<open>undefined\<close> (here \<open>None\<close>)
  outside its bounds.
\<close>

definition get :: "'a list \<Rightarrow> nat \<Rightarrow> 'a option" where
  "get a i = (if i < length a then Some (a ! i) else None)"

text \<open>Writing \<^verbatim>\<open>a[i] = v\<close>: a typed array ignores a write outside the buffer.\<close>

definition put :: "byte list \<Rightarrow> nat \<Rightarrow> byte \<Rightarrow> byte list" where
  "put a i v = (if i < length a then a[i := v] else a)"

text \<open>
  The comparison \<^verbatim>\<open>n > a[i]\<close> of a number with an element: an element that is
  \<^verbatim>\<open>undefined\<close> converts to \<^verbatim>\<open>NaN\<close> and the comparison is false.
\<close>

definition gt :: "nat \<Rightarrow> byte option \<Rightarrow> bool" where
  "gt n e = (case e of None \<Rightarrow> False | Some b \<Rightarrow> unat b < n)"

definition store_put :: "store \<Rightarrow> ref \<Rightarrow> nat \<Rightarrow> byte \<Rightarrow> store" where
  "store_put h r i v = h[r := put (h ! r) i v]"

text \<open>
  \<^verbatim>\<open>a.subarray(begin, end)\<close>: a negative index counts from the end, both indices are
  clamped to the buffer, and an empty range gives an empty view.
\<close>

definition subarray :: "byte list \<Rightarrow> int \<Rightarrow> int \<Rightarrow> byte list" where
  "subarray a b e =
     (let len = int (length a);
          from = (if b < 0 then max (len + b) 0 else min b len);
          to = (if e < 0 then max (len + e) 0 else min e len)
      in take (nat (to - from)) (drop (nat from) a))"

datatype error = InvalidOffset int | InvalidRegisterCount nat | RangeError

text \<open>
  \<^verbatim>\<open>target.set(source)\<close> copies \<open>source\<close> over the start of \<open>target\<close> and throws a
  \<^verbatim>\<open>RangeError\<close> when \<open>source\<close> is longer than \<open>target\<close>.
\<close>

definition typed_set :: "byte list \<Rightarrow> byte list \<Rightarrow> error + byte list" where
  "typed_set target source =
     (if length target < length source then Inl RangeError
      else Inr (source @ drop (length source) target))"

text \<open>
  \<^verbatim>\<open>new DataView(x.buffer, x.byteOffset, x.byteLength).getBigUint64(0, false)\<close>: the
  first eight bytes of the view \<open>x\<close>, most significant byte first; a view shorter than
  eight bytes throws a \<^verbatim>\<open>RangeError\<close>. The result is a non-negative \<^verbatim>\<open>BigInt\<close>.
\<close>

definition getBigUint64 :: "byte list \<Rightarrow> error + nat" where
  "getBigUint64 x =
     (if length x < 8 then Inl RangeError
      else Inr (foldl (\<lambda>acc b. acc * 256 + unat b) 0 (take 8 x)))"

section \<open>hyperloglog.js\<close>

text \<open>
  \<^verbatim>\<open>clz56\<close>: the loop \<^verbatim>\<open>while ((m & x) === 0n && m !== 0n) { c++; m >>= 1n }\<close> with
  \<open>m\<close> starting at \<^verbatim>\<open>1n << 55n\<close>. Both \<open>x\<close> and \<open>m\<close> are non-negative \<^verbatim>\<open>BigInt\<close>s
  (\<open>m\<close> is only ever shifted right), hence natural numbers.
\<close>

function clz56_loop :: "nat \<Rightarrow> nat \<Rightarrow> nat \<Rightarrow> nat" where
  "clz56_loop x c m =
     (if m AND x = 0 \<and> m \<noteq> 0 then clz56_loop x (c + 1) (drop_bit 1 m) else c)"
  by pat_completeness auto
termination
  by (relation "measure (\<lambda>(x, c, m). m)") (auto simp: drop_bit_eq_div)

declare clz56_loop.simps [simp del]

definition clz56 :: "nat \<Rightarrow> nat" where
  "clz56 x = clz56_loop x 0 (push_bit 55 1)"

fun countZeros :: "byte list \<Rightarrow> nat" where
  "countZeros [] = 0"
| "countZeros (b # s) = (if b = 0 then 1 else 0) + countZeros s"

record HyperLogLog =
  offset :: int
  registers :: ref

definition "constructor" :: "int \<Rightarrow> store \<Rightarrow> error + (HyperLogLog \<times> store)" where
  "constructor off h =
     (if off < 0 \<or> off > 32 - 8 then Inl (InvalidOffset off)
      else Inr (\<lparr>offset = off, registers = length h\<rparr>, h @ [replicate 256 0]))"

definition newWithRegisters :: "ref \<Rightarrow> int \<Rightarrow> store \<Rightarrow> error + (HyperLogLog \<times> store)" where
  "newWithRegisters regs off h =
     (case constructor off h of
        Inl e \<Rightarrow> Inl e
      | Inr (hll, h1) \<Rightarrow>
          if length (h1 ! regs) \<noteq> 256 then Inl (InvalidRegisterCount (length (h1 ! regs)))
          else (case typed_set (h1 ! registers hll) (h1 ! regs) of
                  Inl e \<Rightarrow> Inl e
                | Inr a \<Rightarrow> Inr (hll, h1[registers hll := a])))"

definition getRegisters :: "HyperLogLog \<Rightarrow> ref" where
  "getRegisters this = registers this"

definition setRegisters :: "HyperLogLog \<Rightarrow> ref \<Rightarrow> HyperLogLog" where
  "setRegisters this enc = this\<lparr>registers := enc\<rparr>"

function mergeRegisters_loop :: "HyperLogLog \<Rightarrow> ref \<Rightarrow> nat \<Rightarrow> store \<Rightarrow> store" where
  "mergeRegisters_loop this other i h =
     (if i < length (h ! other) then
        mergeRegisters_loop this other (i + 1)
          (if gt (unat (h ! other ! i)) (get (h ! registers this) i)
           then store_put h (registers this) i (h ! other ! i) else h)
      else h)"
  by pat_completeness auto
termination
proof (relation "measure (\<lambda>(this, other, i, h). length (h ! other) - i)")
  fix this :: HyperLogLog and other i :: nat and h :: store
  assume "i < length (h ! other)"
  moreover have "length (store_put h (registers this) i (h ! other ! i) ! other) = length (h ! other)"
    by (cases "registers this < length h")
       (simp_all add: store_put_def put_def nth_list_update not_less list_update_beyond)
  ultimately show "((this, other, i + 1,
        if gt (unat (h ! other ! i)) (get (h ! registers this) i)
        then store_put h (registers this) i (h ! other ! i) else h),
      this, other, i, h) \<in> measure (\<lambda>(this, other, i, h). length (h ! other) - i)"
    by auto
qed simp

declare mergeRegisters_loop.simps [simp del]

definition mergeRegisters :: "HyperLogLog \<Rightarrow> ref \<Rightarrow> store \<Rightarrow> store" where
  "mergeRegisters this other h = mergeRegisters_loop this other 0 h"

definition clear :: "HyperLogLog \<Rightarrow> store \<Rightarrow> store" where
  "clear this h = h[registers this := replicate (length (h ! registers this)) 0]"

text \<open>
  \<^verbatim>\<open>add\<close> checks no key length. The index \<open>j\<close> is \<^verbatim>\<open>undefined\<close> when the window is
  empty, but then the 64-bit read has thrown already; were it \<^verbatim>\<open>undefined\<close>, the register
  read would be \<^verbatim>\<open>undefined\<close> too and the comparison false. The rank is stored as a byte.
\<close>

definition add :: "HyperLogLog \<Rightarrow> byte list \<Rightarrow> store \<Rightarrow> error + store" where
  "add this pubkey h =
     (let x = subarray pubkey (offset this) (offset this + 8);
          j = get x 0
      in case getBigUint64 x of
           Inl e \<Rightarrow> Inl e
         | Inr w \<Rightarrow>
             let zeroBits = clz56 w + 1;
                 r = (case j of None \<Rightarrow> None | Some b \<Rightarrow> get (h ! registers this) (unat b))
             in if gt zeroBits r
                then Inr (store_put h (registers this) (unat (the j)) (of_nat zeroBits))
                else Inr h)"

function merge_loop :: "HyperLogLog \<Rightarrow> HyperLogLog \<Rightarrow> nat \<Rightarrow> store \<Rightarrow> store" where
  "merge_loop this other i h =
     (if i < length (h ! registers other) then
        merge_loop this other (i + 1)
          (let v = h ! registers other ! i
           in if gt (unat v) (get (h ! registers this) i)
              then store_put h (registers this) i v else h)
      else h)"
  by pat_completeness auto
termination
proof (relation "measure (\<lambda>(this, other, i, h). length (h ! registers other) - i)")
  fix this other :: HyperLogLog and i :: nat and h :: store
  assume "i < length (h ! registers other)"
  moreover have "length (store_put h (registers this) i v ! registers other)
      = length (h ! registers other)" for v
    by (cases "registers this < length h")
       (simp_all add: store_put_def put_def nth_list_update not_less list_update_beyond)
  ultimately show "((this, other, i + 1,
        let v = h ! registers other ! i
        in if gt (unat v) (get (h ! registers this) i)
           then store_put h (registers this) i v else h),
      this, other, i, h) \<in> measure (\<lambda>(this, other, i, h). length (h ! registers other) - i)"
    by (auto simp: Let_def)
qed simp

declare merge_loop.simps [simp del]

definition merge :: "HyperLogLog \<Rightarrow> HyperLogLog \<Rightarrow> store \<Rightarrow> store" where
  "merge this other h = merge_loop this other 0 h"

subsection \<open>Numbers\<close>

text \<open>
  A JavaScript number is an IEEE-754 double: every arithmetic operation returns the
  exact real result rounded to a double, and \<^verbatim>\<open>Math.log\<close> and \<^verbatim>\<open>Math.pow\<close> are
  approximated by the implementation. The model works on the reals and takes the
  rounding function and the two library functions as parameters. Integer constants and
  counts up to \<open>2\<^sup>5\<^sup>3\<close> are doubles and are not rounded. The only non-finite value
  that \<^verbatim>\<open>count\<close> can meet is the \<^verbatim>\<open>Infinity\<close> of dividing the positive constant of
  \<^verbatim>\<open>calculateEstimate\<close> by a zero sum.
\<close>

record Number_ops =
  rnd :: "real \<Rightarrow> real"
  Math_log :: "real \<Rightarrow> real"
  Math_pow :: "real \<Rightarrow> real \<Rightarrow> real"

datatype number = Num real | Infinity

fun Math_floor :: "number \<Rightarrow> number" where
  "Math_floor (Num x) = Num (of_int \<lfloor>x\<rfloor>)"
| "Math_floor Infinity = Infinity"

fun num_le :: "number \<Rightarrow> real \<Rightarrow> bool" where
  "num_le (Num x) c = (x \<le> c)"
| "num_le Infinity c = False"

text \<open>\<^verbatim>\<open>linearCounting(m, v)\<close> is only called with a non-zero \<open>v\<close>.\<close>

definition linearCounting :: "Number_ops \<Rightarrow> real \<Rightarrow> real \<Rightarrow> real" where
  "linearCounting fp m v = rnd fp (m * Math_log fp (rnd fp (m / v)))"

text \<open>The loop of \<^verbatim>\<open>calculateEstimate\<close>; \<open>acc\<close> is its variable \<^verbatim>\<open>sum\<close>.\<close>

fun calculateEstimate_loop :: "Number_ops \<Rightarrow> byte list \<Rightarrow> real \<Rightarrow> real" where
  "calculateEstimate_loop fp [] acc = acc"
| "calculateEstimate_loop fp (val # rest) acc =
     calculateEstimate_loop fp rest
       (rnd fp (acc + rnd fp (1.0 / Math_pow fp 2 (real (unat val)))))"

definition calculateEstimate :: "Number_ops \<Rightarrow> HyperLogLog \<Rightarrow> store \<Rightarrow> number" where
  "calculateEstimate fp this h =
     (let acc = calculateEstimate_loop fp (h ! registers this) 0.0
      in if acc = 0 then Infinity
         else Num (rnd fp (rnd fp (rnd fp (rnd fp 0.7182725932495458 * 256) * 256) / acc)))"

definition count :: "Number_ops \<Rightarrow> HyperLogLog \<Rightarrow> store \<Rightarrow> number" where
  "count fp this h =
     (let v = countZeros (h ! registers this);
          rest =
            (let est = calculateEstimate fp this h
             in if num_le est (256 * 3)
                then (if v \<noteq> 0 then Math_floor (Num (linearCounting fp 256 (real v)))
                      else Math_floor est)
                else Math_floor est)
      in if v \<noteq> 0
         then (let lc = linearCounting fp 256 (real v)
               in if lc \<le> 220 then Math_floor (Num lc) else rest)
         else rest)"

section \<open>nip45.js\<close>

text \<open>
  Strings are lists of characters. A string that passes \<^verbatim>\<open>isValid32ByteHex\<close> is
  ASCII, so its length and its characters are the same in either reading.
  The argument of \<^verbatim>\<open>isValid32ByteHex\<close> may be \<^verbatim>\<open>undefined\<close> (\<open>None\<close>), for which
  \<^verbatim>\<open>typeof str === 'string'\<close> is false. The regular expression \<^verbatim>\<open>/^[0-9a-fA-F]+$/\<close>
  accepts the non-empty strings of hexadecimal digits.
\<close>

definition hexChar :: "char \<Rightarrow> bool" where
  "hexChar c = (c \<in> set ''0123456789abcdefABCDEF'')"

definition isValid32ByteHex :: "string option \<Rightarrow> bool" where
  "isValid32ByteHex str =
     (case str of None \<Rightarrow> False
      | Some s \<Rightarrow> length s = 64 \<and> s \<noteq> [] \<and> list_all hexChar s)"

text \<open>
  \<^verbatim>\<open>parseInt(c, 16)\<close> for a string \<open>c\<close> of one character: the value of the digit, or
  \<^verbatim>\<open>NaN\<close> (\<open>None\<close>) when it is not a hexadecimal digit.
\<close>

definition parseInt16 :: "char \<Rightarrow> nat option" where
  "parseInt16 c =
     (let n = of_char c :: nat
      in if 48 \<le> n \<and> n \<le> 57 then Some (n - 48)
         else if 97 \<le> n \<and> n \<le> 102 then Some (n - 87)
         else if 65 \<le> n \<and> n \<le> 70 then Some (n - 55)
         else None)"

record Event =
  kind :: int
  tags :: "string list list"

text \<open>
  The generator is modelled by the list of the pairs \<open>(reference, offset)\<close> it yields,
  in order. An offset is a number, \<^verbatim>\<open>NaN\<close> being \<open>None\<close>.
\<close>

fun follows_loop :: "string list list \<Rightarrow> (string \<times> int option) list" where
  "follows_loop [] = []"
| "follows_loop (tag # rest) =
     (if length tag \<ge> 2 \<and> get tag 0 = Some ''p'' \<and> isValid32ByteHex (get tag 1)
      then (let p = parseInt16 (tag ! 1 ! 32)
            in (tag ! 1, map_option (\<lambda>p. int p + 8) p) # follows_loop rest)
      else follows_loop rest)"

text \<open>
  The loop \<^verbatim>\<open>for (let i = evt.tags.length - 1; i >= 0; i--)\<close>; the argument \<open>n\<close> is
  \<open>i + 1\<close>.
\<close>

fun lastE_loop :: "string list list \<Rightarrow> nat \<Rightarrow> string list option" where
  "lastE_loop ts 0 = None"
| "lastE_loop ts (Suc i) =
     (if get (ts ! i) 0 = Some ''e'' then Some (ts ! i) else lastE_loop ts i)"

definition getEventPubkeyOffsetsAndReferences :: "Event \<Rightarrow> (string \<times> int option) list" where
  "getEventPubkeyOffsetsAndReferences evt =
     (if kind evt = 3 then follows_loop (tags evt)
      else if kind evt = 7 then
        (case lastE_loop (tags evt) (length (tags evt)) of
           None \<Rightarrow> []
         | Some lastE \<Rightarrow>
             (let v = get lastE 1
              in if isValid32ByteHex v
                 then (let p = parseInt16 (the v ! 32)
                       in [(the v, map_option (\<lambda>p. int p + 8) p)])
                 else []))
      else if kind evt = 1111 then
        (case find (\<lambda>t. get t 0 = Some ''E'') (tags evt) of
           None \<Rightarrow> []
         | Some e \<Rightarrow>
             (let v = get e 1
              in if isValid32ByteHex v
                 then (let p = parseInt16 (the v ! 32)
                       in [(the v, map_option (\<lambda>p. int p + 8) p)])
                 else []))
      else [])"

text \<open>
  A filter object: its named properties, each of which may be absent, and its other own
  properties in the order of \<^verbatim>\<open>Object.keys\<close>, each with a list of strings or with
  \<^verbatim>\<open>null\<close> (\<open>None\<close>) as its value.
\<close>

record Filter =
  ids :: "string list option"
  authors :: "string list option"
  kinds :: "int list option"
  since :: "int option"
  until :: "int option"
  limit :: "int option"
  search :: "string option"
  others :: "(string \<times> string list option) list"

definition startsWith :: "string \<Rightarrow> string \<Rightarrow> bool" where
  "startsWith k p = (take (length p) k = p)"

text \<open>The value of \<^verbatim>\<open>filter[tagKey]\<close> for the filter \<open>f\<close>, \<open>None\<close> when it is \<^verbatim>\<open>undefined\<close> or \<^verbatim>\<open>null\<close>.\<close>

definition property :: "Filter \<Rightarrow> string \<Rightarrow> string list option" where
  "property f k = (case map_of (others f) k of None \<Rightarrow> None | Some v \<Rightarrow> v)"

definition nibbleOffset :: "string \<Rightarrow> int" where
  "nibbleOffset v = (case parseInt16 (v ! 32) of None \<Rightarrow> - 1 | Some p \<Rightarrow> int p + 8)"

definition getFilterPubkeyOffset :: "Filter \<Rightarrow> int" where
  "getFilterPubkeyOffset f =
     (if (case ids f of None \<Rightarrow> False | Some l \<Rightarrow> length l > 0) then - 1
      else if (case authors f of None \<Rightarrow> False | Some l \<Rightarrow> length l > 0) then - 1
      else if (case since f of None \<Rightarrow> False | Some n \<Rightarrow> n \<noteq> 0) then - 1
      else if (case until f of None \<Rightarrow> False | Some n \<Rightarrow> n \<noteq> 0) then - 1
      else if (case search f of None \<Rightarrow> False | Some s \<Rightarrow> s \<noteq> []) then - 1
      else if (case kinds f of None \<Rightarrow> True | Some l \<Rightarrow> length l \<noteq> 1) then - 1
      else
        (let tagKeys = filter (\<lambda>k. startsWith k ''#'') (map fst (others f))
         in if length tagKeys \<noteq> 1 then - 1
            else
              (let tagKey = tagKeys ! 0;
                   tagValues = property f tagKey
               in if (case tagValues of None \<Rightarrow> True
                      | Some l \<Rightarrow> length l \<noteq> 1 \<or> \<not> isValid32ByteHex (get l 0))
                  then - 1
                  else
                    (let kind = the (kinds f) ! 0
                     in if tagKey = ''#p'' then
                          (if kind = 3 then nibbleOffset (the tagValues ! 0) else - 1)
                        else if tagKey = ''#e'' then
                          (if kind = 7 then nibbleOffset (the tagValues ! 0) else - 1)
                        else if tagKey = ''#E'' then
                          (if kind = 1111 then nibbleOffset (the tagValues ! 0) else - 1)
                        else - 1))))"

section \<open>tests/hyperloglog.test.js\<close>

text \<open>
  The two register buffers of the tests, as the hexadecimal strings of the test file, and
  the loop that fills \<^verbatim>\<open>registers[i]\<close> with \<^verbatim>\<open>parseInt(hex.substring(i * 2, i * 2 + 2), 16)\<close>;
  every character of the two strings is a hexadecimal digit.
\<close>

definition vector_go :: string where
  "vector_go =
     ''0100000101000000000000040000000001020000000002000000000200000003'' @
     ''0000020400000001010200010100000000000000070000040100000002000400'' @
     ''0002040000000000010200000200000401000001000000030100010203000200'' @
     ''0301000300010000070000000001000004000102010000000400010002000000'' @
     ''0001030001000100010000010401000200010000000000000100000200000000'' @
     ''00030100000001000400010000000000000901010100000000040000000b0300'' @
     ''0001010001000001000001000000000300000000000001000300010002000000'' @
     ''0000010000010100000100000104000200030001000300000001000101000102''"

definition vector_rust :: string where
  "vector_rust =
     ''0607070505060806050508060707070706090d080b0605090607070b07090606'' @
     ''060b070507070905080708080508040706090608070708050707080506050904'' @
     ''0a0b06060704060405070706080607050907070b08060808080b080607090a06'' @
     ''060805060604070908050607060805050d05060906090809080807050e070507'' @
     ''0507060907060606070708080b08070707080807060606090807050606040604'' @
     ''09070a0808050a0506050b0810060a0908070709080b0a070508060605080606'' @
     ''07080606080707050806080c0a0707070a080808050608080f07050607070607'' @
     ''0a0908090c080708080806090508060606090906060d07050708080405070708''"

fun registersOfHex :: "string \<Rightarrow> byte list" where
  "registersOfHex (a # b # s) =
     (case (parseInt16 a, parseInt16 b) of
        (Some x, Some y) \<Rightarrow> of_nat (x * 16 + y)
      | _ \<Rightarrow> 0) # registersOfHex s"
| "registersOfHex s = []"

section \<open>Definitions used to state the properties\<close>

text \<open>
  The number of leading zero bits among the low 56 bits of \<open>w\<close>: bits 55, 54, \<dots>, 0 are
  scanned in this order and the zeros before the first one bit are counted.
\<close>

definition leading_zeros56 :: "nat \<Rightarrow> nat" where
  "leading_zeros56 w = length (takeWhile (\<lambda>k. \<not> bit w k) (rev [0..<56]))"

text \<open>The big-endian value of an eight-byte window.\<close>

definition be64 :: "byte list \<Rightarrow> nat" where
  "be64 bs = (\<Sum>i<8. unat (bs ! i) * 256 ^ (7 - i))"

text \<open>
  \<open>max_from i a b\<close> is the buffer \<open>a\<close> in which every element at an index \<open>k \<ge> i\<close>
  that \<open>b\<close> has as well is replaced by the maximum of the two elements.
\<close>

definition max_from :: "nat \<Rightarrow> byte list \<Rightarrow> byte list \<Rightarrow> byte list" where
  "max_from i a b = map (\<lambda>k. if i \<le> k \<and> k < length b then max (a ! k) (b ! k) else a ! k) [0..<length a]"

text \<open>
  The operation that \<^verbatim>\<open>merge\<close> induces on register states: the registers of an
  estimator that holds \<open>a\<close> after it has merged an estimator that holds \<open>b\<close>.
\<close>

definition merged :: "byte list \<Rightarrow> byte list \<Rightarrow> byte list" where
  "merged a b = merge \<lparr>offset = 0, registers = 0\<rparr> \<lparr>offset = 0, registers = 1\<rparr> [a, b] ! 0"

text \<open>The value of a hexadecimal digit, read off the digit tables.\<close>

definition nibbleValue :: "char \<Rightarrow> nat" where
  "nibbleValue c =
     (if c \<in> set ''ABCDEF'' then 10 + length (takeWhile (\<lambda>d. d \<noteq> c) ''ABCDEF'')
      else length (takeWhile (\<lambda>d. d \<noteq> c) ''0123456789abcdef''))"

text \<open>A valid key: exactly 64 characters, each a hexadecimal digit of either case.\<close>

definition isHexKey :: "string \<Rightarrow> bool" where
  "isHexKey s = (length s = 64 \<and> set s \<subseteq> set ''0123456789abcdefABCDEF'')"

text \<open>The last and the first tag whose first element is \<open>name\<close>.\<close>

definition last_tag_with :: "string \<Rightarrow> string list list \<Rightarrow> string list option" where
  "last_tag_with name ts =
     (case filter (\<lambda>t. t \<noteq> [] \<and> hd t = name) ts of [] \<Rightarrow> None | t # r \<Rightarrow> Some (last (t # r)))"

definition first_tag_with :: "string \<Rightarrow> string list list \<Rightarrow> string list option" where
  "first_tag_with name ts =
     (case filter (\<lambda>t. t \<noteq> [] \<and> hd t = name) ts of [] \<Rightarrow> None | t # r \<Rightarrow> Some t)"

text \<open>
  What a selected tag contributes: the pair of its second element and the derived offset
  when that element is a valid key, and nothing otherwise.
\<close>

definition contribution :: "string list \<Rightarrow> (string \<times> int option) list" where
  "contribution t =
     (if 2 \<le> length t \<and> isHexKey (t ! 1)
      then [(t ! 1, Some (int (nibbleValue (t ! 1 ! 32)) + 8))] else [])"

text \<open>
  The eligibility conditions of a filter, with its single tag-selector key \<open>k\<close>, its
  single kind \<open>kd\<close> and its single tag value \<open>v\<close>.
\<close>

definition eligible :: "Filter \<Rightarrow> string \<Rightarrow> int \<Rightarrow> string \<Rightarrow> bool" where
  "eligible f k kd v \<longleftrightarrow>
     (ids f = None \<or> ids f = Some []) \<and>
     (authors f = None \<or> authors f = Some []) \<and>
     (since f = None \<or> since f = Some 0) \<and>
     (until f = None \<or> until f = Some 0) \<and>
     (search f = None \<or> search f = Some []) \<and>
     kinds f = Some [kd] \<and>
     filter (\<lambda>key. key \<noteq> [] \<and> hd key = CHR ''#'') (map fst (others f)) = [k] \<and>
     map_of (others f) k = Some (Some [v]) \<and>
     isHexKey v \<and>
     ((k = ''#p'' \<and> kd = 3) \<or> (k = ''#e'' \<and> kd = 7) \<or> (k = ''#E'' \<and> kd = 1111))"

text \<open>The arithmetic of the real numbers, in which no operation rounds.\<close>

definition exact :: Number_ops where
  "exact = \<lparr>rnd = (\<lambda>x. x), Math_log = ln, Math_pow = (\<lambda>x y. x powr y)\<rparr>"

text \<open>The estimate, as a formula on the real numbers.\<close>

definition estimate_spec :: "byte list \<Rightarrow> int" where
  "estimate_spec regs =
     (let m = 256 :: real;
          alpha = 0.7182725932495458;
          LC_MAX = 220;
          RAW_MAX = 768;
          v = real (length (filter (\<lambda>r. r = 0) regs));
          E = alpha * m\<^sup>2 / (\<Sum>i<length regs. 2 powr (- real (unat (regs ! i))))
      in if v \<noteq> 0 \<and> m * ln (m / v) \<le> LC_MAX then \<lfloor>m * ln (m / v)\<rfloor>
         else if E \<le> RAW_MAX \<and> v \<noteq> 0 then \<lfloor>m * ln (m / v)\<rfloor>
         else \<lfloor>E\<rfloor>)"

text \<open>
  An arithmetic is accurate when rounding a number between \<open>2\<^sup>-\<^sup>3\<^sup>0\<^sup>0\<close> and \<open>2\<^sup>3\<^sup>0\<^sup>0\<close> has a
  relative error of at most \<open>2\<^sup>-\<^sup>3\<^sup>2\<close>, \<^verbatim>\<open>Math.log\<close> has an absolute error of at most
  \<open>2\<^sup>-\<^sup>3\<^sup>2\<close> on the numbers from 1 to 256, and \<^verbatim>\<open>Math.pow(2, n)\<close> has a relative error of
  at most \<open>2\<^sup>-\<^sup>3\<^sup>2\<close> for the integers \<open>n\<close> up to 255. Exact arithmetic is accurate, and so is
  any arithmetic on doubles whose operations are correct to about nine decimal digits.
\<close>

definition tiny :: real where
  "tiny = 1 / 2 ^ 300"

definition huge :: real where
  "huge = 2 ^ 300"

definition accurate :: "Number_ops \<Rightarrow> bool" where
  "accurate fp \<longleftrightarrow>
     (\<forall>x. tiny \<le> x \<and> x \<le> huge \<longrightarrow> \<bar>rnd fp x - x\<bar> \<le> x / 2 ^ 32) \<and>
     (\<forall>x. 1 \<le> x \<and> x \<le> 256 \<longrightarrow> \<bar>Math_log fp x - ln x\<bar> \<le> 1 / 2 ^ 32) \<and>
     (\<forall>n :: nat. n \<le> 255 \<longrightarrow> \<bar>Math_pow fp 2 (real n) - 2 ^ n\<bar> \<le> 2 ^ n / 2 ^ 32)"

text \<open>
  \<open>near k x y\<close>: \<open>y\<close> is \<open>x\<close> up to \<open>k\<close> roundings, each of a relative error of at most
  \<open>2\<^sup>-\<^sup>3\<^sup>2\<close>.
\<close>

definition rho :: real where
  "rho = 1 - 1 / 2 ^ 32"

definition near :: "nat \<Rightarrow> real \<Rightarrow> real \<Rightarrow> bool" where
  "near k x y \<longleftrightarrow> x * rho ^ k \<le> y \<and> y * rho ^ k \<le> x"

text \<open>The sum of \<open>2\<close> to the minus register value over a register set, without rounding.\<close>

fun exact_sum :: "byte list \<Rightarrow> real" where
  "exact_sum [] = 0"
| "exact_sum (val # rest) = 1 / 2 ^ unat val + exact_sum rest"


section \<open>Properties of hyperloglog.js\<close>


lemma length_put [simp]: "length (put a i v) = length a"
  by (simp add: put_def)

lemma length_store_put [simp]: "length (store_put h r i v) = length h"
  by (simp add: store_put_def)

lemma length_nth_store_put [simp]: "length (store_put h r i v ! q) = length (h ! q)"
  by (cases "r < length h")
     (simp_all add: store_put_def nth_list_update not_less list_update_beyond)

lemma nth_store_put_other: "q \<noteq> r \<Longrightarrow> store_put h r i v ! q = h ! q"
  by (simp add: store_put_def)

lemma length_max_from [simp]: "length (max_from i a b) = length a"
  by (simp add: max_from_def)

lemma max_from_same [simp]: "max_from i a a = a"
  by (rule nth_equalityI) (simp_all add: max_from_def)

lemma max_from_beyond: "length b \<le> i \<Longrightarrow> max_from i a b = a"
  by (rule nth_equalityI) (auto simp: max_from_def)

lemma gt_get: "i < length a \<Longrightarrow> gt (unat v) (get a i) \<longleftrightarrow> a ! i < v"
  by (simp add: gt_def get_def word_less_nat_alt)

lemma max_from_step:
  assumes i: "i < length b"
  shows "max_from (i + 1) (if gt (unat (b ! i)) (get a i) then put a i (b ! i) else a) b = max_from i a b"
    (is "max_from _ ?a' _ = _")
proof (rule nth_equalityI)
  show "length (max_from (i + 1) ?a' b) = length (max_from i a b)"
    by simp
next
  fix k assume "k < length (max_from (i + 1) ?a' b)"
  then have k: "k < length a" by (simp split: if_splits)
  show "max_from (i + 1) ?a' b ! k = max_from i a b ! k"
  proof (cases "k = i")
    case True
    then have "max_from (i + 1) ?a' b ! k = ?a' ! i"
      using k by (simp add: max_from_def)
    also have "\<dots> = (if a ! i < b ! i then b ! i else a ! i)"
      using k True by (simp add: gt_get put_def)
    also have "\<dots> = max (a ! i) (b ! i)"
      by (auto simp: max_def)
    also have "\<dots> = max_from i a b ! k"
      using k i True by (simp add: max_from_def)
    finally show ?thesis .
  next
    case False
    with k i show ?thesis
      by (simp add: max_from_def put_def)
  qed
qed

lemma mergeRegisters_loop_eq:
  "registers this < length h \<Longrightarrow> other < length h \<Longrightarrow>
   mergeRegisters_loop this other i h =
     h[registers this := max_from i (h ! registers this) (h ! other)]"
proof (induction this other i h rule: mergeRegisters_loop.induct)
  case (1 this other i h)
  show ?case
  proof (cases "i < length (h ! other)")
    case False
    then show ?thesis
      by (subst mergeRegisters_loop.simps) (simp add: max_from_beyond)
  next
    case True
    show ?thesis
    proof (cases "registers this = other")
      case same: True
      have "\<not> gt (unat (h ! other ! i)) (get (h ! registers this) i)"
        using True same by (simp add: gt_get)
      with True same "1.IH" "1.prems" show ?thesis
        by (subst mergeRegisters_loop.simps) simp
    next
      case diff: False
      let ?h' = "if gt (unat (h ! other ! i)) (get (h ! registers this) i)
           then store_put h (registers this) i (h ! other ! i) else h"
      have a: "?h' ! other = h ! other"
        using diff by (simp add: store_put_def)
      have b: "?h' ! registers this = (if gt (unat (h ! other ! i)) (get (h ! registers this) i) then put (h ! registers this) i (h ! other ! i) else h ! registers this)"
        using "1.prems" by (simp add: store_put_def)
      have c: "?h'[registers this := x] = h[registers this := x]" for x
        by (simp add: store_put_def)
      have "mergeRegisters_loop this other i h = mergeRegisters_loop this other (i + 1) ?h'"
        using True by (subst mergeRegisters_loop.simps) simp
      also have "\<dots> = ?h'[registers this := max_from (i + 1) (?h' ! registers this) (?h' ! other)]"
        using True "1.prems" by (intro "1.IH") simp_all
      also have "\<dots> = h[registers this := max_from i (h ! registers this) (h ! other)]"
        unfolding a b c using max_from_step [OF True] by simp
      finally show ?thesis .
    qed
  qed
qed


lemma merge_loop_eq_mergeRegisters_loop:
  "merge_loop this other i h = mergeRegisters_loop this (registers other) i h"
proof (induction this other i h rule: merge_loop.induct)
  case (1 this other i h)
  show ?case
  proof (cases "i < length (h ! registers other)")
    case True
    then show ?thesis
      using "1.IH" [OF True]
      by (subst merge_loop.simps, subst mergeRegisters_loop.simps) (simp add: Let_def)
  next
    case False
    then show ?thesis
      by (subst merge_loop.simps, subst mergeRegisters_loop.simps) simp
  qed
qed

lemma clz56_loop_zero: "clz56_loop x c 0 = c"
  by (subst clz56_loop.simps) simp

lemma clz56_loop_pow:
  "clz56_loop x c (2 ^ k) = c + length (takeWhile (\<lambda>k. \<not> bit x k) (rev [0..<Suc k]))"
proof (induction k arbitrary: c)
  case 0
  show ?case
    by (subst clz56_loop.simps) (simp add: clz56_loop_zero bit_iff_and_push_bit_not_eq_0 and.commute)
next
  case (Suc k)
  have "(2 ^ Suc k AND x = 0) \<longleftrightarrow> \<not> bit x (Suc k)"
    by (simp add: bit_iff_and_push_bit_not_eq_0 and.commute push_bit_eq_mult)
  moreover have "drop_bit 1 ((2::nat) ^ Suc k) = 2 ^ k"
    by (simp add: drop_bit_eq_div)
  ultimately show ?case
    using Suc.IH [of "c + 1"]
    by (subst clz56_loop.simps) simp
qed

lemma clz56_eq: "clz56 x = leading_zeros56 x"
  using clz56_loop_pow [of x 0 55]
  by (simp add: clz56_def leading_zeros56_def push_bit_eq_mult)

lemma leading_zeros56_le: "leading_zeros56 x \<le> 56"
  using length_takeWhile_le [of "\<lambda>k. \<not> bit x k" "rev [0..<56]"]
  by (simp add: leading_zeros56_def)


lemma subarray_window:
  "0 \<le> off \<Longrightarrow> subarray key off (off + 8) = take 8 (drop (nat off) key)"
  by (simp add: subarray_def Let_def min_def)


lemma upt_8: "[0..<8] = [0, 1, 2, 3, 4, 5, 6, 7]"
  by (simp add: upt_rec)

lemma getBigUint64_eq: 
  assumes "length x = 8"
  shows "getBigUint64 x = Inr (be64 x)"
proof -
  have "x = map (nth x) [0..<8]"
    using assms map_nth [of x] by simp
  then have x: "x = [x ! 0, x ! 1, x ! 2, x ! 3, x ! 4, x ! 5, x ! 6, x ! 7]"
    by (simp add: upt_8)
  have "foldl (\<lambda>acc b. acc * 256 + unat b) 0 (take 8 x) = be64 x"
    unfolding be64_def by (subst x) (simp add: lessThan_nat_numeral lessThan_Suc)
  then show ?thesis
    using assms by (simp add: getBigUint64_def)
qed

lemma rank_bound: "clz56 w + 1 \<le> 57"
  using leading_zeros56_le [of w] by (simp add: clz56_eq)

lemma max_rank:
  assumes "n \<le> 57"
  shows "max b (of_nat n :: byte) = (if unat b < n then of_nat n else b)"
proof -
  have "unat (of_nat n :: byte) = n"
    using assms by (simp add: unat_of_nat)
  then have "b < of_nat n \<longleftrightarrow> unat b < n"
    by (simp add: word_less_nat_alt)
  then show ?thesis
    by (auto simp: max_def)
qed

lemma add_eq:
  assumes off: "0 \<le> offset this" "offset this \<le> 24"
    and key: "length key = 32"
    and regs: "length (h ! registers this) = 256"
  shows "add this key h =
     Inr (let window = take 8 (drop (nat (offset this)) key);
              j = unat (hd window);
              rank = 1 + leading_zeros56 (be64 window);
              old = h ! registers this
          in h[registers this := old[j := max (old ! j) (of_nat rank)]])"
proof -
  define x where "x = take 8 (drop (nat (offset this)) key)"
  have len: "length x = 8"
    using off key by (simp add: x_def)
  then obtain b bs where bs: "x = b # bs"
    by (cases x) auto
  have sub: "subarray key (offset this) (offset this + 8) = x"
    using off by (simp add: subarray_window x_def)
  have j0: "get x 0 = Some b"
    by (simp add: bs get_def)
  have j: "unat b < 256"
    using unsigned_less [of b, where ?'a = nat] by simp
  define n where "n = clz56 (be64 x) + 1"
  have n: "n \<le> 57"
    unfolding n_def by (rule rank_bound)
  have "add this key h =
     (if unat (h ! registers this ! unat b) < n
      then Inr (store_put h (registers this) (unat b) (of_nat n)) else Inr h)"
    unfolding add_def sub Let_def getBigUint64_eq [OF len] j0 n_def
    using j regs by (simp add: get_def gt_def)
  also have "\<dots> = Inr (h[registers this := (h ! registers this)[unat b := max (h ! registers this ! unat b) (of_nat n)]])"
    using j regs by (simp add: max_rank [OF n] store_put_def put_def)
  finally show ?thesis
    by (simp add: Let_def x_def [symmetric] bs n_def clz56_eq)
qed


lemma merge_eq:
  "registers this < length h \<Longrightarrow> registers other < length h \<Longrightarrow>
   merge this other h =
     h[registers this := max_from 0 (h ! registers this) (h ! registers other)]"
  by (simp add: merge_def merge_loop_eq_mergeRegisters_loop mergeRegisters_loop_eq)

lemma mergeRegisters_eq:
  "registers this < length h \<Longrightarrow> other < length h \<Longrightarrow>
   mergeRegisters this other h =
     h[registers this := max_from 0 (h ! registers this) (h ! other)]"
  by (simp add: mergeRegisters_def mergeRegisters_loop_eq)

lemma max_from_0_map2:
  "length a = length b \<Longrightarrow> max_from 0 a b = map2 max a b"
  by (rule nth_equalityI) (simp_all add: max_from_def)

lemma merged_eq: "merged a b = max_from 0 a b"
  by (simp add: merged_def merge_eq)

lemma map2_max_commute: "length a = length b \<Longrightarrow> map2 max a b = map2 max b (a :: byte list)"
  by (rule nth_equalityI) (simp_all add: max.commute)

lemma map2_max_assoc:
  "length a = length b \<Longrightarrow> length b = length c \<Longrightarrow>
   map2 max (map2 max a b) c = map2 max a (map2 max b (c :: byte list))"
  by (rule nth_equalityI) (simp_all add: max.assoc)

lemma map2_max_idem: "map2 max a a = (a :: byte list)"
  by (rule nth_equalityI) simp_all

text \<open>
  C4: \<^verbatim>\<open>merge\<close> replaces the registers of \<open>this\<close> by the elementwise maximum of both
  register sets and changes no other buffer; on register states of length 256 the
  operation is commutative, associative and idempotent, and merging an estimator with
  itself changes nothing.
\<close>

theorem merge_elementwise_max_laws:
  assumes "registers this < length h" and "registers other < length h"
    and "length (h ! registers this) = 256" and "length (h ! registers other) = 256"
    and "length a = 256" and "length b = 256" and "length c = 256"
  shows "merge this other h =
           h[registers this := map2 max (h ! registers this) (h ! registers other)]
       \<and> merged a b = map2 max a b
       \<and> merged a b = merged b a
       \<and> merged (merged a b) c = merged a (merged b c)
       \<and> merged a a = a
       \<and> merge this this h = h"
proof -
  have 1: "merge this other h =
           h[registers this := map2 max (h ! registers this) (h ! registers other)]"
    using assms by (simp add: merge_eq max_from_0_map2)
  have 2: "merged x y = map2 max x y" if "length x = length y" for x y
    using that by (simp add: merged_eq max_from_0_map2)
  have 3: "merged a b = merged b a"
    using assms by (simp add: 2 map2_max_commute)
  have 4: "merged (merged a b) c = merged a (merged b c)"
    using assms by (simp add: 2 map2_max_assoc)
  have 5: "merged a a = a"
    by (simp add: 2 map2_max_idem)
  have 6: "merge this this h = h"
    using assms by (simp add: merge_eq)
  from 1 2 [of a b] 3 4 5 6 assms show ?thesis
    by simp
qed

theorem merge_elementwise_max_laws_witness:
  "registers \<lparr>offset = 0, registers = 0\<rparr> < length [replicate 256 1, replicate 256 (2 :: byte)]
   \<and> registers \<lparr>offset = 0, registers = 1\<rparr> < length [replicate 256 1, replicate 256 (2 :: byte)]
   \<and> length ([replicate 256 1, replicate 256 (2 :: byte)] ! registers \<lparr>offset = 0, registers = 0\<rparr>) = 256
   \<and> length ([replicate 256 1, replicate 256 (2 :: byte)] ! registers \<lparr>offset = 0, registers = 1\<rparr>) = 256
   \<and> length (replicate 256 (3 :: byte)) = 256
   \<and> length (replicate 256 (4 :: byte)) = 256
   \<and> length (replicate 256 (5 :: byte)) = 256
   \<and> merged (replicate 256 3) (replicate 256 4) = merged (replicate 256 4) (replicate 256 3)
   \<and> merge \<lparr>offset = 0, registers = 0\<rparr> \<lparr>offset = 0, registers = 1\<rparr>
        [replicate 256 1, replicate 256 2] =
      [replicate 256 1, replicate 256 2]
        [registers \<lparr>offset = 0, registers = 0\<rparr> :=
           map2 max ([replicate 256 1, replicate 256 2] ! registers \<lparr>offset = 0, registers = 0\<rparr>)
                    ([replicate 256 1, replicate 256 2] ! registers \<lparr>offset = 0, registers = 1\<rparr>)]"
proof -
  let ?h = "[replicate 256 1, replicate 256 (2 :: byte)]"
  let ?x = "\<lparr>offset = 0, registers = 0\<rparr>" and ?y = "\<lparr>offset = 0, registers = 1\<rparr>"
  have h: "registers ?x < length ?h" "registers ?y < length ?h"
    "length (?h ! registers ?x) = 256" "length (?h ! registers ?y) = 256"
    "length (replicate 256 (3 :: byte)) = 256" "length (replicate 256 (4 :: byte)) = 256"
    "length (replicate 256 (5 :: byte)) = 256"
    by simp_all
  from merge_elementwise_max_laws [OF h] h show ?thesis
    by blast
qed

text \<open>
  C10: \<^verbatim>\<open>mergeRegisters\<close> checks no length. For a raw buffer of any length \<open>n\<close>, the
  registers at the indices below \<open>min n 256\<close> become the maximum of the register and the
  buffer's byte, the registers from \<open>n\<close> on keep their value, the register set keeps its
  length, no other buffer changes, and there is no failure: the function is total.
\<close>

theorem mergeRegisters_partial_merge:
  assumes "registers this < length h" and "other < length h"
    and "length (h ! registers this) = 256"
  shows "length (mergeRegisters this other h ! registers this) = 256
       \<and> (\<forall>i. i < min (length (h ! other)) 256 \<longrightarrow>
            mergeRegisters this other h ! registers this ! i =
              max (h ! registers this ! i) (h ! other ! i))
       \<and> (\<forall>i. length (h ! other) \<le> i \<and> i < 256 \<longrightarrow>
            mergeRegisters this other h ! registers this ! i = h ! registers this ! i)
       \<and> (\<forall>q. q \<noteq> registers this \<longrightarrow> mergeRegisters this other h ! q = h ! q)
       \<and> length (mergeRegisters this other h) = length h"
  using assms by (simp add: mergeRegisters_eq max_from_def)


theorem mergeRegisters_partial_merge_witness:
  "registers \<lparr>offset = 0, registers = 0\<rparr> < length [replicate 256 1, replicate 100 (2 :: byte)]
   \<and> (1 :: nat) < length [replicate 256 1, replicate 100 (2 :: byte)]
   \<and> length ([replicate 256 1, replicate 100 (2 :: byte)] ! registers \<lparr>offset = 0, registers = 0\<rparr>) = 256
   \<and> length (mergeRegisters \<lparr>offset = 0, registers = 0\<rparr> 1 [replicate 256 1, replicate 100 2]
         ! registers \<lparr>offset = 0, registers = 0\<rparr>) = 256
   \<and> mergeRegisters \<lparr>offset = 0, registers = 0\<rparr> 1 [replicate 256 1, replicate 100 2]
         ! registers \<lparr>offset = 0, registers = 0\<rparr> ! 99 = 2
   \<and> mergeRegisters \<lparr>offset = 0, registers = 0\<rparr> 1 [replicate 256 1, replicate 100 2]
         ! registers \<lparr>offset = 0, registers = 0\<rparr> ! 100 = 1"
proof -
  let ?h = "[replicate 256 1, replicate 100 (2 :: byte)]"
  let ?e = "\<lparr>offset = 0, registers = 0\<rparr>"
  have h: "registers ?e < length ?h" "(1 :: nat) < length ?h" "length (?h ! registers ?e) = 256"
    by simp_all
  note t = mergeRegisters_partial_merge [OF h]
  from t have "mergeRegisters ?e 1 ?h ! registers ?e ! 99 =
      max (?h ! registers ?e ! 99) (?h ! 1 ! 99)"
    by simp
  moreover from t have "mergeRegisters ?e 1 ?h ! registers ?e ! 100 = ?h ! registers ?e ! 100"
    by simp
  ultimately show ?thesis
    using t h by simp
qed

lemma unat_max_rank:
  assumes "n \<le> 57"
  shows "unat (max b (of_nat n :: byte)) = max (unat b) n"
proof -
  have "unat (of_nat n :: byte) = n"
    using assms by (simp add: unat_of_nat)
  then show ?thesis
    unfolding max_rank [OF assms] by (simp add: max_def)
qed

text \<open>
  C1: for an estimator with an offset in \<open>[0, 24]\<close> and a key of 32 bytes, \<^verbatim>\<open>add\<close>
  reads the eight bytes of the key from the offset on as a big-endian number \<open>w\<close>, takes
  the first of them as the index \<open>j\<close>, computes the rank as one plus the number of
  leading zero bits among the low 56 bits of \<open>w\<close> (at most 57), and stores the maximum
  of register \<open>j\<close> and the rank in register \<open>j\<close>; every other register and every other
  buffer is unchanged.
\<close>

theorem add_updates_one_register:
  assumes "0 \<le> offset this" and "offset this \<le> 24" and "length key = 32"
    and "registers this < length h" and "length (h ! registers this) = 256"
  shows "let window = take 8 (drop (nat (offset this)) key);
             w = be64 window;
             j = unat (key ! nat (offset this));
             rank = 1 + leading_zeros56 w;
             old = h ! registers this
         in length window = 8 \<and> j < 256 \<and> rank \<le> 57
          \<and> add this key h = Inr (h[registers this := old[j := max (old ! j) (of_nat rank)]])
          \<and> unat (max (old ! j) (of_nat rank)) = max (unat (old ! j)) rank
          \<and> (\<forall>h'. add this key h = Inr h' \<longrightarrow>
                length (h' ! registers this) = 256
              \<and> unat (h' ! registers this ! j) = max (unat (old ! j)) rank
              \<and> (\<forall>i. i < 256 \<and> i \<noteq> j \<longrightarrow> h' ! registers this ! i = old ! i)
              \<and> (\<forall>q. q \<noteq> registers this \<longrightarrow> h' ! q = h ! q))"
proof -
  define window where "window = take 8 (drop (nat (offset this)) key)"
  define j where "j = unat (key ! nat (offset this))"
  define rank where "rank = 1 + leading_zeros56 (be64 window)"
  define old where "old = h ! registers this"
  have len: "length window = 8"
    using assms by (simp add: window_def)
  have hd: "hd window = key ! nat (offset this)"
    using assms by (simp add: window_def hd_drop_conv_nth)
  have j: "j < 256"
    using unsigned_less [of "key ! nat (offset this)", where ?'a = nat] by (simp add: j_def)
  have rank: "rank \<le> 57"
    using leading_zeros56_le [of "be64 window"] by (simp add: rank_def)
  have eq: "add this key h = Inr (h[registers this := old[j := max (old ! j) (of_nat rank)]])"
    using add_eq [of this key h] assms
    by (simp add: Let_def window_def [symmetric] hd j_def rank_def old_def)
  have num: "unat (max (old ! j) (of_nat rank)) = max (unat (old ! j)) rank"
    by (rule unat_max_rank [OF rank])
  have frame: "length (h' ! registers this) = 256
              \<and> unat (h' ! registers this ! j) = max (unat (old ! j)) rank
              \<and> (\<forall>i. i < 256 \<and> i \<noteq> j \<longrightarrow> h' ! registers this ! i = old ! i)
              \<and> (\<forall>q. q \<noteq> registers this \<longrightarrow> h' ! q = h ! q)"
    if "add this key h = Inr h'" for h'
  proof -
    from that eq have h': "h' = h[registers this := old[j := max (old ! j) (of_nat rank)]]"
      by simp
    show ?thesis
      using assms j by (simp add: h' old_def [symmetric] num)
  qed
  from len j rank eq num frame show ?thesis
    unfolding Let_def window_def [symmetric] j_def [symmetric] rank_def [symmetric] old_def [symmetric]
    by blast
qed

theorem add_updates_one_register_witness:
  "0 \<le> offset \<lparr>offset = 4, registers = 0\<rparr>
   \<and> offset \<lparr>offset = 4, registers = 0\<rparr> \<le> 24
   \<and> length (replicate 32 (1 :: byte)) = 32
   \<and> registers \<lparr>offset = 4, registers = 0\<rparr> < length [replicate 256 (0 :: byte)]
   \<and> length ([replicate 256 (0 :: byte)] ! registers \<lparr>offset = 4, registers = 0\<rparr>) = 256
   \<and> (let window = take 8 (drop (nat (offset \<lparr>offset = 4, registers = 0\<rparr>)) (replicate 32 (1 :: byte)));
           w = be64 window;
           j = unat (replicate 32 (1 :: byte) ! nat (offset \<lparr>offset = 4, registers = 0\<rparr>));
           rank = 1 + leading_zeros56 w;
           old = [replicate 256 (0 :: byte)] ! registers \<lparr>offset = 4, registers = 0\<rparr>
       in add \<lparr>offset = 4, registers = 0\<rparr> (replicate 32 1) [replicate 256 0] =
            Inr ([replicate 256 0][registers \<lparr>offset = 4, registers = 0\<rparr> :=
                   old[j := max (old ! j) (of_nat rank)]]))"
proof -
  let ?e = "\<lparr>offset = 4, registers = 0\<rparr>"
  have h: "0 \<le> offset ?e" "offset ?e \<le> 24" "length (replicate 32 (1 :: byte)) = 32"
    "registers ?e < length [replicate 256 (0 :: byte)]"
    "length ([replicate 256 (0 :: byte)] ! registers ?e) = 256"
    by simp_all
  from add_updates_one_register [OF h] h show ?thesis
    unfolding Let_def by blast
qed

lemma length_nth_mergeRegisters_loop [simp]:
  "length (mergeRegisters_loop this other i h ! q) = length (h ! q)"
proof (induction this other i h rule: mergeRegisters_loop.induct)
  case (1 this other i h)
  show ?case
  proof (cases "i < length (h ! other)")
    case True
    with "1.IH" show ?thesis
      by (subst mergeRegisters_loop.simps) simp
  next
    case False
    then show ?thesis
      by (subst mergeRegisters_loop.simps) simp
  qed
qed

lemma length_mergeRegisters_loop [simp]:
  "length (mergeRegisters_loop this other i h) = length h"
proof (induction this other i h rule: mergeRegisters_loop.induct)
  case (1 this other i h)
  show ?case
  proof (cases "i < length (h ! other)")
    case True
    with "1.IH" show ?thesis
      by (subst mergeRegisters_loop.simps) simp
  next
    case False
    then show ?thesis
      by (subst mergeRegisters_loop.simps) simp
  qed
qed

lemma nth_mergeRegisters_loop_other:
  "q \<noteq> registers this \<Longrightarrow> mergeRegisters_loop this other i h ! q = h ! q"
proof (induction this other i h rule: mergeRegisters_loop.induct)
  case (1 this other i h)
  show ?case
  proof (cases "i < length (h ! other)")
    case True
    with "1.IH" "1.prems" show ?thesis
      by (subst mergeRegisters_loop.simps) (simp add: nth_store_put_other)
  next
    case False
    then show ?thesis
      by (subst mergeRegisters_loop.simps) simp
  qed
qed

lemma length_nth_clear [simp]: "length (clear this h ! q) = length (h ! q)"
  by (cases "registers this < length h")
     (simp_all add: clear_def nth_list_update not_less list_update_beyond)

lemma nth_clear_other: "q \<noteq> registers this \<Longrightarrow> clear this h ! q = h ! q"
  by (simp add: clear_def)

lemma add_cases:
  "add this key h = Inl RangeError
   \<or> add this key h = Inr h
   \<or> (\<exists>j v. add this key h = Inr (store_put h (registers this) j v))"
  by (auto simp: add_def Let_def getBigUint64_def split: sum.splits)

lemma length_nth_add: "add this key h = Inr h' \<Longrightarrow> length (h' ! q) = length (h ! q)"
  using add_cases [of this key h] by auto

lemma nth_add_other: "add this key h = Inr h' \<Longrightarrow> q \<noteq> registers this \<Longrightarrow> h' ! q = h ! q"
  using add_cases [of this key h] by (auto simp: nth_store_put_other)

lemma constructor_Inr:
  "constructor off h = Inr (e, h') \<Longrightarrow>
     e = \<lparr>offset = off, registers = length h\<rparr> \<and> h' = h @ [replicate 256 0]
     \<and> 0 \<le> off \<and> off \<le> 24"
  by (auto simp: constructor_def split: if_splits)

lemma newWithRegisters_Inr:
  assumes "newWithRegisters r off h = Inr (e, h')"
  shows "e = \<lparr>offset = off, registers = length h\<rparr>
     \<and> h' = h @ [(h @ [replicate 256 0]) ! r]
     \<and> length ((h @ [replicate 256 0]) ! r) = 256
     \<and> 0 \<le> off \<and> off \<le> 24"
  using assms
  by (auto simp: newWithRegisters_def constructor_def typed_set_def split: if_splits)

text \<open>
  C8 as stated fails for \<^verbatim>\<open>setRegisters\<close>: the estimator takes over the buffer it is
  given, whatever its length. Here an estimator with 256 registers is given a buffer of
  100 bytes.
\<close>

theorem setRegisters_length_counterexample:
  "length ([replicate 256 0, replicate 100 0] ! registers \<lparr>offset = 0, registers = 0\<rparr>) = 256
   \<and> length ([replicate 256 0, replicate 100 0] !
        registers (setRegisters \<lparr>offset = 0, registers = 0\<rparr> 1)) = 100"
  by (simp add: setRegisters_def)

text \<open>
  C8, amended: a constructed estimator has exactly 256 registers; \<^verbatim>\<open>add\<close> (when it
  returns), \<^verbatim>\<open>merge\<close>, \<^verbatim>\<open>mergeRegisters\<close> and \<^verbatim>\<open>clear\<close> keep the length 256 for every
  input; after \<^verbatim>\<open>setRegisters\<close> the register set has the length of the buffer that was
  passed, which is 256 only if the caller passed 256 bytes.
\<close>

theorem register_length_invariant:
  "(\<forall>e h'. constructor off h = Inr (e, h') \<longrightarrow> length (h' ! registers e) = 256)
 \<and> (\<forall>e h'. newWithRegisters r off h = Inr (e, h') \<longrightarrow> length (h' ! registers e) = 256)
 \<and> (length (h ! registers this) = 256 \<longrightarrow>
       (\<forall>h'. add this key h = Inr h' \<longrightarrow> length (h' ! registers this) = 256)
     \<and> length (merge this other h ! registers this) = 256
     \<and> length (mergeRegisters this buf h ! registers this) = 256
     \<and> length (clear this h ! registers this) = 256)
 \<and> length (h ! registers (setRegisters this enc)) = length (h ! enc)"
proof -
  have 1: "length (h' ! registers e) = 256" if "constructor off h = Inr (e, h')" for e h'
    using constructor_Inr [OF that] by simp
  have 2: "length (h' ! registers e) = 256" if "newWithRegisters r off h = Inr (e, h')" for e h'
    using newWithRegisters_Inr [OF that] by simp
  have 3: "length (h' ! registers this) = 256"
    if "length (h ! registers this) = 256" "add this key h = Inr h'" for h'
    using that length_nth_add [of this key h h'] by simp
  have 4: "length (merge this other h ! registers this) = length (h ! registers this)"
    by (simp add: merge_def merge_loop_eq_mergeRegisters_loop)
  have 5: "length (mergeRegisters this buf h ! registers this) = length (h ! registers this)"
    by (simp add: mergeRegisters_def)
  have 6: "length (clear this h ! registers this) = length (h ! registers this)"
    by simp
  have 7: "length (h ! registers (setRegisters this enc)) = length (h ! enc)"
    by (simp add: setRegisters_def)
  from 1 2 3 4 5 6 7 show ?thesis
    by simp
qed



theorem register_length_invariant_witness:
  "constructor 0 [] = Inr (\<lparr>offset = 0, registers = 0\<rparr>, [replicate 256 0])
   \<and> length ([replicate 256 (0 :: byte)] ! registers \<lparr>offset = 0, registers = 0\<rparr>) = 256
   \<and> newWithRegisters 0 0 [replicate 256 7] =
        Inr (\<lparr>offset = 0, registers = 1\<rparr>, [replicate 256 7, replicate 256 7])
   \<and> length ([replicate 256 7, replicate 256 (7 :: byte)] ! registers \<lparr>offset = 0, registers = 1\<rparr>) = 256
   \<and> (\<exists>h'. add \<lparr>offset = 0, registers = 0\<rparr> (replicate 32 1) [replicate 256 0] = Inr h'
          \<and> length (h' ! registers \<lparr>offset = 0, registers = 0\<rparr>) = 256)
   \<and> length (clear \<lparr>offset = 0, registers = 0\<rparr> [replicate 256 0]
        ! registers \<lparr>offset = 0, registers = 0\<rparr>) = 256"
proof -
  let ?e = "\<lparr>offset = 0, registers = 0\<rparr>"
  let ?h = "[replicate 256 (0 :: byte)]"
  have c: "constructor 0 [] = Inr (?e, ?h)"
    by (simp add: constructor_def)
  have n: "newWithRegisters 0 0 [replicate 256 7] =
        Inr (\<lparr>offset = 0, registers = 1\<rparr>, [replicate 256 7, replicate 256 7])"
    by (simp add: newWithRegisters_def constructor_def typed_set_def)
  have l: "length (?h ! registers ?e) = 256"
    by simp
  obtain h' where a: "add ?e (replicate 32 1) ?h = Inr h'"
    using add_eq [of ?e "replicate 32 1" ?h] by simp
  note t1 = register_length_invariant [where off = 0 and h = "[]"]
  note t2 = register_length_invariant [where r = 0 and off = 0 and h = "[replicate 256 7]"]
  note t3 = register_length_invariant [where this = ?e and h = ?h and key = "replicate 32 1"]
  from t1 c have "length (?h ! registers ?e) = 256"
    by blast
  moreover from t2 n
  have "length ([replicate 256 7, replicate 256 (7 :: byte)] ! registers \<lparr>offset = 0, registers = 1\<rparr>) = 256"
    by blast
  moreover from t3 l a have "length (h' ! registers ?e) = 256"
    by blast
  moreover from t3 l have "length (clear ?e ?h ! registers ?e) = 256"
    by blast
  ultimately show ?thesis
    using c n a by blast
qed

lemma length_subarray:
  "0 \<le> off \<Longrightarrow> length (subarray key off (off + 8)) = min 8 (length key - nat off)"
  by (simp add: subarray_window)

lemma add_Inl_iff:
  "(\<exists>e. add this key h = Inl e) \<longleftrightarrow>
     length (subarray key (offset this) (offset this + 8)) < 8"
  by (auto simp: add_def Let_def getBigUint64_def)

lemma add_Inl_RangeError: "add this key h = Inl e \<Longrightarrow> e = RangeError"
  using add_cases [of this key h] by auto

text \<open>
  C7 as stated fails for \<^verbatim>\<open>add\<close>: a key with fewer than eight bytes from the offset on
  makes the 64-bit read throw a \<^verbatim>\<open>RangeError\<close>.
\<close>

theorem add_short_key_counterexample:
  "add \<lparr>offset = 0, registers = 0\<rparr> [1, 2, 3, 4, 5, 6, 7] [replicate 256 0] = Inl RangeError"
  by (simp add: add_def subarray_def getBigUint64_def Let_def)

text \<open>
  C7, amended: the constructor fails exactly for an offset outside \<open>[0, 24]\<close>, with the
  invalid-offset error; \<^verbatim>\<open>newWithRegisters\<close> fails with that error for such an offset
  and, for a valid offset, exactly when the buffer does not have 256 bytes, with the
  register-count error; \<^verbatim>\<open>add\<close> of an estimator with a valid offset fails exactly
  when the key has fewer than \<open>offset + 8\<close> bytes, with a \<^verbatim>\<open>RangeError\<close>, hence never for
  a key of 32 bytes. The other operations (\<^verbatim>\<open>merge\<close>, \<^verbatim>\<open>mergeRegisters\<close>, \<^verbatim>\<open>clear\<close>,
  \<^verbatim>\<open>count\<close>, \<^verbatim>\<open>getRegisters\<close>, \<^verbatim>\<open>setRegisters\<close>) contain no operation that throws and are
  total functions without an error result.
\<close>

theorem failure_conditions:
  "((\<exists>e. constructor off h = Inl e) \<longleftrightarrow> off < 0 \<or> 24 < off)
 \<and> (\<forall>e. constructor off h = Inl e \<longrightarrow> e = InvalidOffset off)
 \<and> (off < 0 \<or> 24 < off \<longrightarrow> newWithRegisters r off h = Inl (InvalidOffset off))
 \<and> (0 \<le> off \<and> off \<le> 24 \<and> r < length h \<longrightarrow>
       ((\<exists>e. newWithRegisters r off h = Inl e) \<longleftrightarrow> length (h ! r) \<noteq> 256)
     \<and> (\<forall>e. newWithRegisters r off h = Inl e \<longrightarrow> e = InvalidRegisterCount (length (h ! r))))
 \<and> (0 \<le> offset this \<and> offset this \<le> 24 \<longrightarrow>
       ((\<exists>e. add this key h = Inl e) \<longleftrightarrow> int (length key) < offset this + 8)
     \<and> (\<forall>e. add this key h = Inl e \<longrightarrow> e = RangeError))
 \<and> (0 \<le> offset this \<and> offset this \<le> 24 \<and> length key = 32 \<longrightarrow>
       (\<exists>h'. add this key h = Inr h'))"
proof -
  have 1: "(\<exists>e. constructor off h = Inl e) \<longleftrightarrow> off < 0 \<or> 24 < off"
    by (simp add: constructor_def)
  have 2: "e = InvalidOffset off" if "constructor off h = Inl e" for e
    using that by (simp add: constructor_def split: if_splits)
  have 3: "newWithRegisters r off h = Inl (InvalidOffset off)" if "off < 0 \<or> 24 < off"
    using that by (auto simp: newWithRegisters_def constructor_def)
  have 4: "((\<exists>e. newWithRegisters r off h = Inl e) \<longleftrightarrow> length (h ! r) \<noteq> 256)
     \<and> (\<forall>e. newWithRegisters r off h = Inl e \<longrightarrow> e = InvalidRegisterCount (length (h ! r)))"
    if "0 \<le> off \<and> off \<le> 24 \<and> r < length h"
    using that by (auto simp: newWithRegisters_def constructor_def typed_set_def nth_append)
  have 5: "((\<exists>e. add this key h = Inl e) \<longleftrightarrow> int (length key) < offset this + 8)
     \<and> (\<forall>e. add this key h = Inl e \<longrightarrow> e = RangeError)"
    if "0 \<le> offset this \<and> offset this \<le> 24"
  proof -
    have "length (subarray key (offset this) (offset this + 8)) < 8
        \<longleftrightarrow> int (length key) < offset this + 8"
      using that by (simp add: length_subarray) linarith
    then show ?thesis
      using add_Inl_iff [of this key h] add_Inl_RangeError [of this key h] by blast
  qed
  have 6: "\<exists>h'. add this key h = Inr h'"
    if "0 \<le> offset this \<and> offset this \<le> 24 \<and> length key = 32"
  proof -
    from that 5 have "\<not> (\<exists>e. add this key h = Inl e)"
      by simp
    then show ?thesis
      by (cases "add this key h") auto
  qed
  from 1 2 3 4 5 6 show ?thesis
    by blast
qed

theorem failure_conditions_witness:
  "((100 :: int) < 0 \<or> 24 < (100 :: int))
 \<and> constructor 100 [] = Inl (InvalidOffset 100)
 \<and> newWithRegisters 0 100 [replicate 256 0] = Inl (InvalidOffset 100)
 \<and> (0 :: int) \<le> 0 \<and> (0 :: int) \<le> 24 \<and> (0 :: nat) < length [replicate 100 (0 :: byte)]
 \<and> newWithRegisters 0 0 [replicate 100 0] = Inl (InvalidRegisterCount 100)
 \<and> 0 \<le> offset \<lparr>offset = 3, registers = 0\<rparr> \<and> offset \<lparr>offset = 3, registers = 0\<rparr> \<le> 24
 \<and> length (replicate 32 (1 :: byte)) = 32
 \<and> (\<exists>h'. add \<lparr>offset = 3, registers = 0\<rparr> (replicate 32 1) [replicate 256 0] = Inr h')
 \<and> add \<lparr>offset = 3, registers = 0\<rparr> (replicate 10 1) [replicate 256 0] = Inl RangeError"
proof -
  let ?e = "\<lparr>offset = 3, registers = 0\<rparr>"
  have o: "(100 :: int) < 0 \<or> 24 < (100 :: int)" by simp
  have 1: "constructor 100 [] = Inl (InvalidOffset 100)"
    using o failure_conditions [of 100 "[]" 0 ?e "[]"] by blast
  have 2: "newWithRegisters 0 100 [replicate 256 0] = Inl (InvalidOffset 100)"
    using o failure_conditions [of 100 "[replicate 256 0]" 0 ?e "[]"] by blast
  have a: "(0 :: int) \<le> 0 \<and> (0 :: int) \<le> 24 \<and> (0 :: nat) < length [replicate 100 (0 :: byte)]"
    by simp
  have l: "length ([replicate 100 (0 :: byte)] ! 0) \<noteq> 256" "length ([replicate 100 (0 :: byte)] ! 0) = 100"
    by simp_all
  have 3: "newWithRegisters 0 0 [replicate 100 0] = Inl (InvalidRegisterCount 100)"
    using a l failure_conditions [of 0 "[replicate 100 0]" 0 ?e "[]"] by metis
  have b: "0 \<le> offset ?e \<and> offset ?e \<le> 24 \<and> length (replicate 32 (1 :: byte)) = 32"
    by simp
  have 4: "\<exists>h'. add ?e (replicate 32 1) [replicate 256 0] = Inr h'"
    using b failure_conditions [of 0 "[replicate 256 0]" 0 ?e "replicate 32 1"] by blast
  have c: "int (length (replicate 10 (1 :: byte))) < offset ?e + 8"
    by simp
  have 5: "add ?e (replicate 10 1) [replicate 256 0] = Inl RangeError"
    using b c failure_conditions [of 0 "[replicate 256 0]" 0 ?e "replicate 10 1"] by metis
  from o 1 2 a 3 b 4 5 show ?thesis
    by blast
qed

lemma countZeros_eq: "countZeros regs = length (filter (\<lambda>r. r = 0) regs)"
  by (induction regs) simp_all

lemma exact_loop:
  "calculateEstimate_loop exact regs acc =
     acc + (\<Sum>i<length regs. 2 powr (- real (unat (regs ! i))))"
proof (induction regs arbitrary: acc)
  case Nil
  show ?case by simp
next
  case (Cons val regs)
  have 1: "1 / 2 powr real (unat val) = 2 powr (- real (unat val))"
    by (simp add: powr_minus_divide)
  have 2: "(\<Sum>i<length (val # regs). 2 powr (- real (unat ((val # regs) ! i)))) =
      2 powr (- real (unat val)) + (\<Sum>i<length regs. 2 powr (- real (unat (regs ! i))))"
    by (simp add: sum.lessThan_Suc_shift del: sum.lessThan_Suc)
  have "calculateEstimate_loop exact (val # regs) acc =
      calculateEstimate_loop exact regs (acc + 2 powr (- real (unat val)))"
    using 1 by (simp add: exact_def)
  then show ?case
    unfolding 2 by (simp add: Cons.IH)
qed

lemma exact_sum_pos:
  "regs \<noteq> [] \<Longrightarrow> 0 < (\<Sum>i<length regs. 2 powr (- real (unat (regs ! i))))"
  by (intro sum_pos) auto

lemma count_flow:
  "count fp this h =
     (let v = countZeros (h ! registers this);
          lc = linearCounting fp 256 (real v);
          E = calculateEstimate fp this h
      in if v \<noteq> 0 \<and> lc \<le> 220 then Math_floor (Num lc)
         else if num_le E 768 \<and> v \<noteq> 0 then Math_floor (Num lc)
         else Math_floor E)"
  by (simp add: count_def Let_def)

text \<open>
  C2: \<^verbatim>\<open>count\<close> follows the control flow of the estimate in any arithmetic: with \<open>v\<close>
  the number of zero registers, the linear count is returned when \<open>v \<noteq> 0\<close> and it is at
  most 220; otherwise the raw estimate \<open>E\<close> is computed, and the linear count is
  returned again when \<open>E \<le> 768\<close> and \<open>v \<noteq> 0\<close>, and \<open>E\<close> otherwise, each rounded down. In
  exact arithmetic the linear count is \<open>256 ln (256 / v)\<close> and the raw estimate is
  \<open>0.7182725932495458 \<cdot> 256\<^sup>2\<close> divided by the sum of the \<open>2\<close> to the minus register values.
\<close>

theorem count_control_flow:
  "count fp this h =
     (let v = countZeros (h ! registers this);
          lc = linearCounting fp 256 (real v);
          E = calculateEstimate fp this h
      in if v \<noteq> 0 \<and> lc \<le> 220 then Math_floor (Num lc)
         else if num_le E 768 \<and> v \<noteq> 0 then Math_floor (Num lc)
         else Math_floor E)
 \<and> (h ! registers this \<noteq> [] \<longrightarrow>
       count exact this h = Num (of_int (estimate_spec (h ! registers this))))"
proof -
  have "count exact this h = Num (of_int (estimate_spec (h ! registers this)))"
    if "h ! registers this \<noteq> []"
  proof -
    define regs where "regs = h ! registers this"
    define S where "S = (\<Sum>i<length regs. 2 powr (- real (unat (regs ! i))))"
    have S: "0 < S"
      using that unfolding S_def regs_def by (rule exact_sum_pos)
    have lc: "linearCounting exact 256 v = 256 * ln (256 / v)" for v
      by (simp add: linearCounting_def exact_def)
    have loop: "calculateEstimate_loop exact regs 0 = S"
      by (simp add: exact_loop S_def)
    have E: "calculateEstimate exact this h = Num (0.7182725932495458 * 256\<^sup>2 / S)"
      using S by (simp add: calculateEstimate_def regs_def [symmetric] loop Let_def)
        (simp add: exact_def)
    show ?thesis
      unfolding count_flow estimate_spec_def regs_def [symmetric] Let_def
        countZeros_eq [symmetric] lc E S_def [symmetric]
      by simp
  qed
  then show ?thesis
    using count_flow [of fp this h] by blast
qed

theorem count_control_flow_witness:
  "[replicate 256 (0 :: byte)] ! registers \<lparr>offset = 0, registers = 0\<rparr> \<noteq> []
 \<and> count exact \<lparr>offset = 0, registers = 0\<rparr> [replicate 256 0] =
     Num (of_int (estimate_spec ([replicate 256 0] ! registers \<lparr>offset = 0, registers = 0\<rparr>)))"
proof -
  have "[replicate 256 (0 :: byte)] ! registers \<lparr>offset = 0, registers = 0\<rparr> \<noteq> []"
    by simp
  with count_control_flow [of exact "\<lparr>offset = 0, registers = 0\<rparr>" "[replicate 256 0]"]
  show ?thesis
    by blast
qed

lemma count_cong:
  "h' ! registers e' = h ! registers e \<Longrightarrow> count fp e' h' = count fp e h"
  by (simp add: count_def calculateEstimate_def)


lemma newWithRegisters_copy:
  assumes "0 \<le> off" and "off \<le> 24" and "r < length h" and "length (h ! r) = 256"
  shows "newWithRegisters r off h = Inr (\<lparr>offset = off, registers = length h\<rparr>, h @ [h ! r])"
  using assms by (simp add: newWithRegisters_def constructor_def typed_set_def nth_append)

text \<open>
  C9: for an estimator \<open>e\<close> with a valid offset and 256 registers,
  \<^verbatim>\<open>newWithRegisters(e.getRegisters(), e.offset)\<close> succeeds and gives an estimator with
  the same offset whose registers are a new buffer with the same contents, so that it
  has the same count in any arithmetic; \<open>e\<close>'s buffer is unchanged, and no later
  \<^verbatim>\<open>clear\<close>, \<^verbatim>\<open>merge\<close>, \<^verbatim>\<open>mergeRegisters\<close> or \<^verbatim>\<open>add\<close> of the new estimator changes it.
\<close>

theorem roundtrip_copy:
  assumes "0 \<le> offset e" and "offset e \<le> 24"
    and "registers e < length h" and "length (h ! registers e) = 256"
  shows "\<exists>e' h'. newWithRegisters (getRegisters e) (offset e) h = Inr (e', h')
       \<and> registers e' \<noteq> registers e
       \<and> offset e' = offset e
       \<and> h' ! registers e' = h ! registers e
       \<and> h' ! registers e = h ! registers e
       \<and> count fp e' h' = count fp e h
       \<and> (\<forall>h2 key other buf.
             clear e' h2 ! registers e = h2 ! registers e
           \<and> merge e' other h2 ! registers e = h2 ! registers e
           \<and> mergeRegisters e' buf h2 ! registers e = h2 ! registers e
           \<and> (\<forall>h3. add e' key h2 = Inr h3 \<longrightarrow> h3 ! registers e = h2 ! registers e))"
proof -
  define e' where "e' = \<lparr>offset = offset e, registers = length h\<rparr>"
  define h' where "h' = h @ [h ! registers e]"
  have new: "newWithRegisters (getRegisters e) (offset e) h = Inr (e', h')"
    using assms by (simp add: getRegisters_def newWithRegisters_copy e'_def h'_def)
  have ne: "registers e \<noteq> registers e'"
    using assms by (simp add: e'_def)
  have copy: "h' ! registers e' = h ! registers e"
    by (simp add: e'_def h'_def)
  have old: "h' ! registers e = h ! registers e"
    using assms by (simp add: h'_def nth_append)
  have cnt: "count fp e' h' = count fp e h"
    using copy by (rule count_cong)
  have frame: "clear e' h2 ! registers e = h2 ! registers e
           \<and> merge e' other h2 ! registers e = h2 ! registers e
           \<and> mergeRegisters e' buf h2 ! registers e = h2 ! registers e
           \<and> (\<forall>h3. add e' key h2 = Inr h3 \<longrightarrow> h3 ! registers e = h2 ! registers e)"
    for h2 key other buf
    using ne
    by (auto simp: nth_clear_other merge_def mergeRegisters_def
        merge_loop_eq_mergeRegisters_loop nth_mergeRegisters_loop_other nth_add_other)
  from new ne copy old cnt frame show ?thesis
    unfolding e'_def [symmetric] by (intro exI [of _ e'] exI [of _ h']) (simp add: e'_def)
qed

theorem roundtrip_copy_witness:
  "0 \<le> offset \<lparr>offset = 8, registers = 0\<rparr> \<and> offset \<lparr>offset = 8, registers = 0\<rparr> \<le> 24
 \<and> registers \<lparr>offset = 8, registers = 0\<rparr> < length [replicate 256 (3 :: byte)]
 \<and> length ([replicate 256 (3 :: byte)] ! registers \<lparr>offset = 8, registers = 0\<rparr>) = 256
 \<and> (\<exists>e' h'. newWithRegisters (getRegisters \<lparr>offset = 8, registers = 0\<rparr>)
          (offset \<lparr>offset = 8, registers = 0\<rparr>) [replicate 256 3] = Inr (e', h')
       \<and> registers e' \<noteq> registers \<lparr>offset = 8, registers = 0\<rparr>
       \<and> count exact e' h' = count exact \<lparr>offset = 8, registers = 0\<rparr> [replicate 256 3]
       \<and> clear e' h' ! registers \<lparr>offset = 8, registers = 0\<rparr>
            = h' ! registers \<lparr>offset = 8, registers = 0\<rparr>)"
proof -
  let ?e = "\<lparr>offset = 8, registers = 0\<rparr>"
  let ?h = "[replicate 256 (3 :: byte)]"
  have h: "0 \<le> offset ?e" "offset ?e \<le> 24" "registers ?e < length ?h"
    "length (?h ! registers ?e) = 256"
    by simp_all
  from roundtrip_copy [OF h, of exact] obtain e' h' where
    "newWithRegisters (getRegisters ?e) (offset ?e) ?h = Inr (e', h')"
    "registers e' \<noteq> registers ?e"
    "count exact e' h' = count exact ?e ?h"
    "clear e' h' ! registers ?e = h' ! registers ?e"
    by blast
  with h show ?thesis
    by blast
qed

subsection \<open>The known vectors in an accurate arithmetic\<close>

lemma rho_pos: "0 < rho" and rho_le: "rho \<le> 1" and rho_less: "rho < 1"
  by (simp_all add: rho_def)

lemma rho_pow_pos: "0 < rho ^ k"
  using rho_pos by simp

lemma rho_pow_le: "rho ^ k \<le> 1"
  using rho_pos rho_le by (simp add: power_le_one)

lemma rho_pow_mono: "k \<le> l \<Longrightarrow> rho ^ l \<le> rho ^ k"
  using rho_pos rho_le by (simp add: power_decreasing)

lemma rho_pow_ge: "1 - real k / 2 ^ 32 \<le> rho ^ k"
proof -
  have "1 + real k * (- (1 / 2 ^ 32)) \<le> (1 + (- (1 / 2 ^ 32))) ^ k"
    by (rule Bernoulli_inequality) simp
  then show ?thesis
    by (simp add: rho_def)
qed

lemma rho_pow_half: "k \<le> 2 ^ 20 \<Longrightarrow> 1 / 2 \<le> rho ^ k"
proof -
  assume "k \<le> 2 ^ 20"
  then have "real k \<le> 2 ^ 20"
    by (metis of_nat_le_iff of_nat_numeral of_nat_power)
  then have "1 / 2 \<le> 1 - real k / 2 ^ 32"
    by simp
  then show ?thesis
    using rho_pow_ge [of k] by linarith
qed

lemma near_refl: "0 \<le> x \<Longrightarrow> near k x x"
  using rho_pow_le [of k] by (simp add: near_def mult_left_le)

lemma near_nonneg: "near k x y \<Longrightarrow> 0 \<le> x \<Longrightarrow> 0 \<le> y"
  unfolding near_def using rho_pow_pos [of k]
  by (meson mult_nonneg_nonneg less_imp_le order_trans)

lemma near_pos: "near k x y \<Longrightarrow> 0 < x \<Longrightarrow> 0 < y"
  unfolding near_def using rho_pow_pos [of k]
  by (meson mult_pos_pos less_le_trans)

lemma near_mono:
  assumes "near k x y" and "k \<le> l" and "0 \<le> x"
  shows "near l x y"
proof -
  have y: "0 \<le> y"
    using assms near_nonneg by blast
  have "x * rho ^ l \<le> x * rho ^ k"
    using assms rho_pow_mono by (simp add: mult_left_mono)
  moreover have "y * rho ^ l \<le> y * rho ^ k"
    using assms y rho_pow_mono by (simp add: mult_left_mono)
  ultimately show ?thesis
    using assms unfolding near_def by linarith
qed

lemma near_trans:
  assumes "near k x y" and "near l y z"
  shows "near (k + l) x z"
proof -
  have "x * rho ^ (k + l) = (x * rho ^ k) * rho ^ l"
    by (simp add: power_add)
  also have "\<dots> \<le> y * rho ^ l"
    using assms rho_pow_pos [of l] by (simp add: near_def)
  also have "\<dots> \<le> z"
    using assms by (simp add: near_def)
  finally have 1: "x * rho ^ (k + l) \<le> z" .
  have "z * rho ^ (k + l) = (z * rho ^ l) * rho ^ k"
    by (simp add: power_add)
  also have "\<dots> \<le> y * rho ^ k"
    using assms rho_pow_pos [of k] by (simp add: near_def)
  also have "\<dots> \<le> x"
    using assms by (simp add: near_def)
  finally have 2: "z * rho ^ (k + l) \<le> x" .
  from 1 2 show ?thesis
    by (simp add: near_def)
qed

lemma near_add: "near k a a' \<Longrightarrow> near k b b' \<Longrightarrow> near k (a + b) (a' + b')"
  by (simp add: near_def distrib_right)

lemma near_mult_left: "0 \<le> c \<Longrightarrow> near k x y \<Longrightarrow> near k (c * x) (c * y)"
  unfolding near_def
  by (metis mult.assoc mult_left_mono)

lemma near_inverse:
  assumes "near k x y" and "0 < x"
  shows "near k (1 / x) (1 / y)"
proof -
  have y: "0 < y"
    using assms near_pos by blast
  have "1 / x * rho ^ k \<le> 1 / y"
    using assms y by (simp add: near_def field_simps)
  moreover have "1 / y * rho ^ k \<le> 1 / x"
    using assms y by (simp add: near_def field_simps)
  ultimately show ?thesis
    by (simp add: near_def)
qed

lemma near_divide:
  assumes "near k a a'" and "near l b b'" and "0 \<le> a" and "0 < b"
  shows "near (k + l) (a / b) (a' / b')"
proof -
  have b': "0 < b'" and a': "0 \<le> a'"
    using assms near_pos near_nonneg by blast+
  have i: "near l (1 / b) (1 / b')"
    using assms near_inverse by blast
  have 1: "near k (a * (1 / b)) (a' * (1 / b))"
    using assms(1) assms(4) unfolding near_def
    by (simp add: divide_right_mono)
  have 2: "near l (a' * (1 / b)) (a' * (1 / b'))"
    using near_mult_left [OF a' i] .
  from near_trans [OF 1 2] show ?thesis
    by simp
qed

lemma tiny_pos: "0 < tiny"
  by (simp add: tiny_def)

lemma tiny_le:
  assumes "n \<le> 255"
  shows "tiny \<le> 1 / (2::real) ^ n / 2"
proof -
  have "(2::real) ^ Suc n \<le> 2 ^ 300"
    using assms by (intro power_increasing) simp_all
  then have "1 / (2::real) ^ 300 \<le> 1 / 2 ^ Suc n"
    by (intro frac_le) simp_all
  then show ?thesis
    by (simp add: tiny_def)
qed

lemma huge_ge: "4194304 \<le> huge"
  by (simp add: huge_def)

lemma near_rnd:
  assumes "accurate fp" and "tiny \<le> x" and "x \<le> huge"
  shows "near 1 x (rnd fp x)"
proof -
  have x: "0 < x"
    using assms(2) tiny_pos by linarith
  from assms have "\<bar>rnd fp x - x\<bar> \<le> x / 2 ^ 32"
    unfolding accurate_def by blast
  then have lo: "x - x / 2 ^ 32 \<le> rnd fp x" and hi: "rnd fp x \<le> x + x / 2 ^ 32"
    by linarith+
  have 1: "x * rho \<le> rnd fp x"
    using lo by (simp add: rho_def algebra_simps)
  have "rnd fp x * rho \<le> (x + x / 2 ^ 32) * rho"
    using hi rho_pos by (simp add: mult_right_mono)
  also have "\<dots> = x * (1 - 1 / 2 ^ 64)"
    by (simp add: rho_def algebra_simps)
  also have "\<dots> \<le> x"
    using x by (simp add: algebra_simps)
  finally show ?thesis
    using 1 by (simp add: near_def)
qed

lemma near_pow:
  assumes "accurate fp" and "n \<le> 255"
  shows "near 1 (2 ^ n) (Math_pow fp 2 (real n))"
proof -
  let ?x = "(2::real) ^ n"
  have x: "0 < ?x" by simp
  from assms have "\<bar>Math_pow fp 2 (real n) - ?x\<bar> \<le> ?x / 2 ^ 32"
    unfolding accurate_def by blast
  then have lo: "?x - ?x / 2 ^ 32 \<le> Math_pow fp 2 (real n)"
    and hi: "Math_pow fp 2 (real n) \<le> ?x + ?x / 2 ^ 32"
    by linarith+
  have 1: "?x * rho \<le> Math_pow fp 2 (real n)"
    using lo by (simp add: rho_def algebra_simps)
  have "Math_pow fp 2 (real n) * rho \<le> (?x + ?x / 2 ^ 32) * rho"
    using hi rho_pos by (simp add: mult_right_mono)
  also have "\<dots> = ?x * (1 - 1 / 2 ^ 64)"
    by (simp add: rho_def algebra_simps)
  also have "\<dots> \<le> ?x"
    using x by (simp add: algebra_simps)
  finally show ?thesis
    using 1 by (simp add: near_def)
qed


lemma near_bounds:
  assumes "near k x y" and "k \<le> 2 ^ 20" and "0 \<le> x"
  shows "x / 2 \<le> y \<and> y \<le> 2 * x"
proof -
  have h: "1 / 2 \<le> rho ^ k"
    using assms rho_pow_half by blast
  have y: "0 \<le> y"
    using assms near_nonneg by blast
  have "x * (1 / 2) \<le> x * rho ^ k"
    using h assms by (intro mult_left_mono) simp_all
  then have 1: "x / 2 \<le> y"
    using assms by (simp add: near_def)
  have "y * (1 / 2) \<le> y * rho ^ k"
    using h y by (intro mult_left_mono) simp_all
  then have 2: "y \<le> 2 * x"
    using assms by (simp add: near_def)
  from 1 2 show ?thesis ..
qed

lemma near_interval:
  assumes "near k x y" and "0 \<le> x"
  shows "x * (1 - real k / 2 ^ 32) \<le> y \<and> y * (1 - real k / 2 ^ 32) \<le> x"
proof -
  have y: "0 \<le> y"
    using assms near_nonneg by blast
  have "x * (1 - real k / 2 ^ 32) \<le> x * rho ^ k"
    using assms rho_pow_ge [of k] by (intro mult_left_mono) simp_all
  moreover have "y * (1 - real k / 2 ^ 32) \<le> y * rho ^ k"
    using y rho_pow_ge [of k] by (intro mult_left_mono) simp_all
  ultimately show ?thesis
    using assms by (simp add: near_def)
qed

lemma exact_sum_nonneg: "0 \<le> exact_sum rs"
  by (induction rs) simp_all

lemma term_near:
  assumes "accurate fp"
  shows "near 2 (1 / 2 ^ unat val) (rnd fp (1 / Math_pow fp 2 (real (unat (val :: byte)))))"
proof -
  let ?n = "unat val"
  let ?t = "1 / (2::real) ^ unat val"
  let ?q = "1 / Math_pow fp 2 (real ?n)"
  have n: "?n \<le> 255"
    using unsigned_less [of val, where ?'a = nat] by simp
  have p: "near 1 (2 ^ ?n) (Math_pow fp 2 (real ?n))"
    using assms n by (rule near_pow)
  then have i: "near 1 ?t ?q"
    by (rule near_inverse) simp
  have hi: "?t \<le> 1"
    by (simp add: divide_le_eq)
  from near_bounds [OF i] have b: "?t / 2 \<le> ?q" "?q \<le> 2 * ?t"
    by simp_all
  from b tiny_le [OF n] have r1: "tiny \<le> ?q"
    by linarith
  from b hi huge_ge have r2: "?q \<le> huge"
    by linarith
  from near_trans [OF i near_rnd [OF assms r1 r2]] show ?thesis
    by (simp add: numeral_2_eq_2)
qed

lemma range_sum:
  fixes S t a tl :: real
  assumes "(S + t) / 2 \<le> a" and "a \<le> 2 * (S + t)" and "0 \<le> S" and "S \<le> 1048576"
    and "tiny \<le> t / 2" and "t \<le> 1"
  shows "tiny \<le> a \<and> a \<le> huge"
  using assms huge_ge by (simp add: add_divide_distrib)

lemma loop_near:
  assumes "accurate fp"
  shows "near k S acc \<Longrightarrow> 0 \<le> S \<Longrightarrow> 2 \<le> k \<Longrightarrow> k + length rs \<le> 2 ^ 20 \<Longrightarrow>
     S + real (length rs) \<le> 2 ^ 20 \<Longrightarrow>
     near (k + length rs) (S + exact_sum rs) (calculateEstimate_loop fp rs acc)"
proof (induction rs arbitrary: k S acc)
  case Nil
  then show ?case by simp
next
  case (Cons val rs)
  let ?t = "1 / (2::real) ^ unat val"
  let ?t' = "rnd fp (1 / Math_pow fp 2 (real (unat val)))"
  have n: "unat val \<le> 255"
    using unsigned_less [of val, where ?'a = nat] by simp
  have k: "k \<le> 2 ^ 20"
    using Cons.prems by simp
  have t1: "?t \<le> 1" by (simp add: divide_le_eq)
  have "near 2 ?t ?t'"
    using assms by (rule term_near)
  then have tk: "near k ?t ?t'"
    using Cons.prems(3) by (rule near_mono) simp
  have Sk: "near k S acc"
    using Cons.prems(1) .
  have a: "near k (S + ?t) (acc + ?t')"
    using Sk tk by (rule near_add)
  have S0: "0 \<le> S" and S1: "S \<le> 1048576"
    using Cons.prems by simp_all
  have St: "0 \<le> S + ?t"
    using S0 by simp
  from near_bounds [OF a k St] have b: "(S + ?t) / 2 \<le> acc + ?t'" "acc + ?t' \<le> 2 * (S + ?t)"
    by simp_all
  from range_sum [OF b S0 S1 tiny_le [OF n] t1]
  have r1: "tiny \<le> acc + ?t'" and r2: "acc + ?t' \<le> huge"
    by simp_all
  have c: "near (k + 1) (S + ?t) (rnd fp (acc + ?t'))"
    using near_trans [OF a near_rnd [OF assms r1 r2]] .
  have k1: "2 \<le> k + 1" "k + 1 + length rs \<le> 2 ^ 20"
    using Cons.prems by simp_all
  have "S + (real (length rs) + 1) \<le> 1048576"
    using Cons.prems(5) by simp
  with t1 have "S + ?t + real (length rs) \<le> 1048576"
    by linarith
  then have S2: "S + ?t + real (length rs) \<le> 2 ^ 20"
    by simp
  have "near (k + 1 + length rs) (S + ?t + exact_sum rs)
      (calculateEstimate_loop fp rs (rnd fp (acc + ?t')))"
    using c St k1 S2 by (rule Cons.IH)
  then show ?case
    by (simp add: add.assoc)
qed


lemma near_rnd_trans:
  assumes "accurate fp" and "near k x y" and "k \<le> 2 ^ 20" and "2 * tiny \<le> x" and "2 * x \<le> huge"
  shows "near (k + 1) x (rnd fp y)"
proof -
  have x: "0 \<le> x"
    using assms(4) tiny_pos by linarith
  from near_bounds [OF assms(2) assms(3) x] assms(4) assms(5)
  have "tiny \<le> y" and "y \<le> huge"
    by linarith+
  with assms(1) have "near 1 y (rnd fp y)"
    by (rule near_rnd)
  with assms(2) show ?thesis
    by (rule near_trans)
qed

lemma near_times_256: "near k x y \<Longrightarrow> near k (x * 256) (y * 256)"
  using near_mult_left [of 256 k x y] by (simp add: mult.commute)

lemma tiny_small: "2 * tiny \<le> 1 / 1000000"
proof -
  have "(2::real) ^ 21 \<le> 2 ^ 300"
    by (intro power_increasing) simp_all
  then have "1 / (2::real) ^ 300 \<le> 1 / 2 ^ 21"
    by (intro frac_le) simp_all
  then show ?thesis
    by (simp add: tiny_def)
qed

lemma huge_large: "1000000000 \<le> huge"
  by (simp add: huge_def)

lemma raw_near:
  assumes acc: "accurate fp" and len: "length rs \<le> 1000"
    and S1: "1 \<le> exact_sum rs" and S2: "exact_sum rs \<le> 1000"
  shows "0 < calculateEstimate_loop fp rs 0
       \<and> near (length rs + 6) (0.7182725932495458 * 65536 / exact_sum rs)
            (rnd fp (rnd fp (rnd fp (rnd fp 0.7182725932495458 * 256) * 256)
               / calculateEstimate_loop fp rs 0))"
proof -
  let ?a = "0.7182725932495458 :: real"
  let ?S = "exact_sum rs"
  let ?acc = "calculateEstimate_loop fp rs 0"
  have "near (2 + length rs) (0 + ?S) ?acc"
    using len by (intro loop_near [OF acc] near_refl) simp_all
  then have s: "near (length rs + 2) ?S ?acc"
    by (simp add: add.commute)
  have S0: "0 < ?S"
    using S1 by linarith
  from s S0 have pos: "0 < ?acc"
    by (rule near_pos)
  have t: "2 * tiny \<le> ?a" "2 * tiny \<le> ?a * 256" "2 * tiny \<le> ?a * 256 * 256"
    using tiny_small by simp_all
  have h: "2 * ?a \<le> huge" "2 * (?a * 256) \<le> huge" "2 * (?a * 256 * 256) \<le> huge"
    using huge_large by simp_all
  have 1: "near (0 + 1) ?a (rnd fp ?a)"
    using acc t(1) h(1) by (intro near_rnd_trans near_refl) simp_all
  have 2: "near (0 + 1 + 1) (?a * 256) (rnd fp (rnd fp ?a * 256))"
    using acc t(2) h(2) by (intro near_rnd_trans near_times_256 1) simp_all
  have 3: "near (0 + 1 + 1 + 1) (?a * 256 * 256) (rnd fp (rnd fp (rnd fp ?a * 256) * 256))"
    using acc t(3) h(3) by (intro near_rnd_trans near_times_256 2) simp_all
  have d: "near (0 + 1 + 1 + 1 + (length rs + 2)) (?a * 256 * 256 / ?S)
      (rnd fp (rnd fp (rnd fp ?a * 256) * 256) / ?acc)"
    using 3 s S0 by (intro near_divide) simp_all
  have lo: "?a * 256 * 256 / 1000 \<le> ?a * 256 * 256 / ?S"
    using S0 S2 by (intro divide_left_mono) simp_all
  have hi: "?a * 256 * 256 / ?S \<le> ?a * 256 * 256 / 1"
    using S1 by (intro divide_left_mono) simp_all
  have r1: "2 * tiny \<le> ?a * 256 * 256 / ?S"
    using lo tiny_small by simp
  have r2: "2 * (?a * 256 * 256 / ?S) \<le> huge"
    using hi huge_large by simp
  have "near (0 + 1 + 1 + 1 + (length rs + 2) + 1) (?a * 256 * 256 / ?S)
      (rnd fp (rnd fp (rnd fp (rnd fp ?a * 256) * 256) / ?acc))"
    using acc d _ r1 r2 by (rule near_rnd_trans) (use len in simp)
  moreover have "0 + 1 + 1 + 1 + (length rs + 2) + 1 = length rs + 6"
    by simp
  moreover have "?a * 256 * 256 / ?S = ?a * 65536 / ?S"
    by simp
  ultimately have "near (length rs + 6) (?a * 65536 / ?S)
      (rnd fp (rnd fp (rnd fp (rnd fp ?a * 256) * 256) / ?acc))"
    by (simp only:)
  with pos show ?thesis
    by blast
qed


lemma near_between:
  assumes "near k x y" and "0 \<le> x" and "real k < 2 ^ 32"
    and "lo \<le> x * (1 - real k / 2 ^ 32)" and "x < hi * (1 - real k / 2 ^ 32)"
  shows "lo \<le> y \<and> y < hi"
proof -
  let ?c = "1 - real k / 2 ^ 32"
  have c: "0 < ?c"
    using assms(3) by simp
  from near_interval [OF assms(1) assms(2)] have 1: "x * ?c \<le> y" and 2: "y * ?c \<le> x"
    by simp_all
  from 2 assms(5) have "y * ?c < hi * ?c"
    by linarith
  with c have "y < hi"
    by (simp only: mult_less_cancel_right_pos)
  with 1 assms(4) show ?thesis
    by linarith
qed

lemma exp_upper:
  "exp (495617 / 1048576 :: real) \<le> 256 / 159 * rho"
proof -
  let ?y = "495617 / 33554432 :: real"
  let ?b = "1142775689977857 / 1125899906842624 :: real"
  have "exp ?y \<le> 1 + ?y + ?y\<^sup>2"
    by (rule exp_bound) simp_all
  also have "\<dots> = ?b"
    by (simp add: power2_eq_square)
  finally have "exp ?y ^ 32 \<le> ?b ^ 32"
    by (intro power_mono) simp_all
  moreover have "exp (of_nat 32 * ?y) = exp ?y ^ 32"
    by (rule exp_of_nat_mult)
  moreover have "of_nat 32 * ?y = (495617 / 1048576 :: real)"
    by simp
  ultimately have 1: "exp (495617 / 1048576 :: real) \<le> ?b ^ 32"
    by (simp only:)
  have 2: "?b ^ 32 \<le> 256 / 159 * rho"
    by (simp add: rho_def power_divide)
  from 1 2 show ?thesis
    by (rule order_trans)
qed

lemma exp_lower:
  "256 / 159 \<le> rho * exp (499711 / 1048576 :: real)"
proof -
  let ?y = "499711 / 16777216 :: real"
  let ?b = "579967183273985 / 562949953421312 :: real"
  have "?b = 1 + ?y + ?y\<^sup>2 / 2"
    by (simp add: power2_eq_square)
  also have "\<dots> \<le> exp ?y"
    by (rule exp_lower_Taylor_quadratic) simp
  finally have "?b ^ 16 \<le> exp ?y ^ 16"
    by (intro power_mono) simp_all
  moreover have "exp (of_nat 16 * ?y) = exp ?y ^ 16"
    by (rule exp_of_nat_mult)
  moreover have "of_nat 16 * ?y = (499711 / 1048576 :: real)"
    by simp
  ultimately have 1: "?b ^ 16 \<le> exp (499711 / 1048576 :: real)"
    by (simp only:)
  have 2: "256 / 159 \<le> rho * ?b ^ 16"
    by (simp add: rho_def power_divide)
  have "rho * ?b ^ 16 \<le> rho * exp (499711 / 1048576 :: real)"
    using 1 rho_pos by (intro mult_left_mono) simp_all
  with 2 show ?thesis
    by linarith
qed


lemma lc_go:
  assumes "accurate fp"
  shows "121 \<le> linearCounting fp 256 159 \<and> linearCounting fp 256 159 < 122"
proof -
  let ?q = "256 / 159 :: real"
  let ?A = "495617 / 1048576 :: real"
  let ?B = "499711 / 1048576 :: real"
  define q' where "q' = rnd fp ?q"
  define L where "L = Math_log fp q'"
  have "2 * tiny \<le> ?q" "2 * ?q \<le> huge"
    using tiny_small huge_large by simp_all
  then have n: "near (0 + 1) ?q q'"
    unfolding q'_def using assms by (intro near_rnd_trans near_refl) simp_all
  then have lo: "?q * rho \<le> q'" and hi: "q' * rho \<le> ?q"
    by (simp_all add: near_def)
  from lo exp_upper have eA: "exp ?A \<le> q'"
    by linarith
  have "1 \<le> exp ?A"
    by simp
  with eA have q1: "1 \<le> q'"
    by linarith
  then have q0: "0 < q'"
    by linarith
  from hi exp_lower have "q' * rho \<le> rho * exp ?B"
    by linarith
  then have eB: "q' \<le> exp ?B"
    using rho_pos by (simp add: mult.commute)
  from near_bounds [OF n] have "q' \<le> 2 * ?q"
    by simp
  then have q256: "q' \<le> 256"
    by simp
  have lnA: "?A \<le> ln q'"
    using eA q0 by (simp only: ln_ge_iff)
  have "ln q' \<le> ln (exp ?B)"
    using eB q0 by (simp only: ln_le_cancel_iff exp_gt_zero)
  then have lnB: "ln q' \<le> ?B"
    by (simp only: ln_exp)
  from assms q1 q256 have "\<bar>L - ln q'\<bar> \<le> 1 / 2 ^ 32"
    unfolding accurate_def L_def by blast
  with lnA lnB have L: "?A - 1 / 2 ^ 32 \<le> L" "L \<le> ?B + 1 / 2 ^ 32"
    by linarith+
  define x where "x = 256 * L"
  from L have x: "256 * (?A - 1 / 2 ^ 32) \<le> x" "x \<le> 256 * (?B + 1 / 2 ^ 32)"
    by (simp_all add: x_def)
  then have x1: "121 \<le> x" "x \<le> 122"
    by simp_all
  then have "2 * tiny \<le> x" "2 * x \<le> huge"
    using tiny_small huge_large by simp_all
  then have "near (0 + 1) x (rnd fp x)"
    using assms by (intro near_rnd_trans near_refl) (use x1 in simp_all)
  then have r: "x * rho \<le> rnd fp x" "rnd fp x * rho \<le> x"
    by (simp_all add: near_def)
  have "256 * (?A - 1 / 2 ^ 32) * rho \<le> x * rho"
    using x(1) rho_pos by (intro mult_right_mono) simp_all
  moreover have "121 \<le> 256 * (?A - 1 / 2 ^ 32) * rho"
    by (simp add: rho_def)
  ultimately have 1: "121 \<le> rnd fp x"
    using r(1) by linarith
  have "256 * (?B + 1 / 2 ^ 32) < 122 * rho"
    by (simp add: rho_def)
  with x(2) r(2) have "rnd fp x * rho < 122 * rho"
    by linarith
  then have 2: "rnd fp x < 122"
    using rho_pos by (simp only: mult_less_cancel_right_pos)
  have "linearCounting fp 256 159 = rnd fp x"
    by (simp add: linearCounting_def x_def L_def q'_def)
  with 1 2 show ?thesis
    by simp
qed

lemma registers_go:
  "registersOfHex vector_go =
     [1, 0, 0, 1, 1, 0, 0, 0, 0, 0, 0, 4, 0, 0, 0, 0, 1, 2, 0, 0, 0, 0, 2, 0, 0, 0, 0, 2, 0, 0, 0, 3,
      0, 0, 2, 4, 0, 0, 0, 1, 1, 2, 0, 1, 1, 0, 0, 0, 0, 0, 0, 0, 7, 0, 0, 4, 1, 0, 0, 0, 2, 0, 4, 0,
      0, 2, 4, 0, 0, 0, 0, 0, 1, 2, 0, 0, 2, 0, 0, 4, 1, 0, 0, 1, 0, 0, 0, 3, 1, 0, 1, 2, 3, 0, 2, 0,
      3, 1, 0, 3, 0, 1, 0, 0, 7, 0, 0, 0, 0, 1, 0, 0, 4, 0, 1, 2, 1, 0, 0, 0, 4, 0, 1, 0, 2, 0, 0, 0,
      0, 1, 3, 0, 1, 0, 1, 0, 1, 0, 0, 1, 4, 1, 0, 2, 0, 1, 0, 0, 0, 0, 0, 0, 1, 0, 0, 2, 0, 0, 0, 0,
      0, 3, 1, 0, 0, 0, 1, 0, 4, 0, 1, 0, 0, 0, 0, 0, 0, 9, 1, 1, 1, 0, 0, 0, 0, 4, 0, 0, 0, 11, 3, 0,
      0, 1, 1, 0, 1, 0, 0, 1, 0, 0, 1, 0, 0, 0, 0, 3, 0, 0, 0, 0, 0, 0, 1, 0, 3, 0, 1, 0, 2, 0, 0, 0,
      0, 0, 1, 0, 0, 1, 1, 0, 0, 1, 0, 0, 1, 4, 0, 2, 0, 3, 0, 1, 0, 3, 0, 0, 0, 1, 0, 1, 1, 0, 1, 2]"
  by (simp add: vector_go_def parseInt16_def)

lemma registers_rust:
  "registersOfHex vector_rust =
     [6, 7, 7, 5, 5, 6, 8, 6, 5, 5, 8, 6, 7, 7, 7, 7, 6, 9, 13, 8, 11, 6, 5, 9, 6, 7, 7, 11, 7, 9, 6, 6,
      6, 11, 7, 5, 7, 7, 9, 5, 8, 7, 8, 8, 5, 8, 4, 7, 6, 9, 6, 8, 7, 7, 8, 5, 7, 7, 8, 5, 6, 5, 9, 4,
      10, 11, 6, 6, 7, 4, 6, 4, 5, 7, 7, 6, 8, 6, 7, 5, 9, 7, 7, 11, 8, 6, 8, 8, 8, 11, 8, 6, 7, 9, 10, 6,
      6, 8, 5, 6, 6, 4, 7, 9, 8, 5, 6, 7, 6, 8, 5, 5, 13, 5, 6, 9, 6, 9, 8, 9, 8, 8, 7, 5, 14, 7, 5, 7,
      5, 7, 6, 9, 7, 6, 6, 6, 7, 7, 8, 8, 11, 8, 7, 7, 7, 8, 8, 7, 6, 6, 6, 9, 8, 7, 5, 6, 6, 4, 6, 4,
      9, 7, 10, 8, 8, 5, 10, 5, 6, 5, 11, 8, 16, 6, 10, 9, 8, 7, 7, 9, 8, 11, 10, 7, 5, 8, 6, 6, 5, 8, 6, 6,
      7, 8, 6, 6, 8, 7, 7, 5, 8, 6, 8, 12, 10, 7, 7, 7, 10, 8, 8, 8, 5, 6, 8, 8, 15, 7, 5, 6, 7, 7, 6, 7,
      10, 9, 8, 9, 12, 8, 7, 8, 8, 8, 6, 9, 5, 8, 6, 6, 6, 9, 9, 6, 6, 13, 7, 5, 7, 8, 8, 4, 5, 7, 7, 8]"
  by (simp add: vector_rust_def parseInt16_def)

lemma zeros_go: "countZeros (registersOfHex vector_go) = 159"
  by (simp add: registers_go)

lemma zeros_rust: "countZeros (registersOfHex vector_rust) = 0"
  by (simp add: registers_rust)

lemma length_go: "length (registersOfHex vector_go) = 256"
  by (simp add: registers_go)

lemma length_rust: "length (registersOfHex vector_rust) = 256"
  by (simp add: registers_rust)

lemma exact_sum_rust: "exact_sum (registersOfHex vector_rust) = 204703 / 65536"
  by (simp add: registers_rust)

lemma count_go:
  assumes "accurate fp" and "h ! registers e = registersOfHex vector_go"
  shows "count fp e h = Num 121"
proof -
  define lc where "lc = linearCounting fp 256 159"
  have v: "countZeros (h ! registers e) = 159"
    by (simp add: assms zeros_go)
  from lc_go [OF assms(1)] have b: "121 \<le> lc" "lc < 122"
    by (simp_all add: lc_def)
  then have "\<lfloor>lc\<rfloor> = 121"
    by (intro floor_unique) simp_all
  moreover from b have "lc \<le> 220"
    by simp
  ultimately show ?thesis
    by (simp add: count_flow v Let_def lc_def [symmetric])
qed

lemma count_rust:
  assumes "accurate fp" and "h ! registers e = registersOfHex vector_rust"
  shows "count fp e h = Num 15070"
proof -
  let ?rs = "registersOfHex vector_rust"
  define est where "est = rnd fp (rnd fp (rnd fp (rnd fp 0.7182725932495458 * 256) * 256)
               / calculateEstimate_loop fp ?rs 0)"
  have v: "countZeros (h ! registers e) = 0"
    by (simp add: assms zeros_rust)
  have "0 < calculateEstimate_loop fp ?rs 0
       \<and> near (length ?rs + 6) (0.7182725932495458 * 65536 / exact_sum ?rs) est"
    unfolding est_def using assms(1)
    by (rule raw_near) (simp_all add: length_rust exact_sum_rust)
  then have pos: "0 < calculateEstimate_loop fp ?rs 0"
    and n: "near 262 (0.7182725932495458 * 65536 / (204703 / 65536)) est"
    by (simp_all add: length_rust exact_sum_rust)
  from n have b: "15070 \<le> est \<and> est < 15071"
    by (rule near_between) simp_all
  then have fl: "\<lfloor>est\<rfloor> = 15070"
    by (intro floor_unique) simp_all
  have E: "calculateEstimate fp e h = Num est"
    using pos by (simp add: calculateEstimate_def assms(2) est_def Let_def)
  from b have "\<not> num_le (Num est) 768"
    by simp
  then show ?thesis
    by (simp add: count_flow v E fl)
qed

text \<open>
  C3: in every accurate arithmetic, an estimator built by \<^verbatim>\<open>newWithRegisters\<close> from the
  first register buffer of the tests has the count 121, and one built from the second
  buffer has the count 15070.
\<close>

theorem known_vectors:
  assumes "accurate fp" and "r < length h"
  shows "(h ! r = registersOfHex vector_go \<longrightarrow>
          (\<exists>e h'. newWithRegisters r 0 h = Inr (e, h') \<and> count fp e h' = Num 121))
       \<and> (h ! r = registersOfHex vector_rust \<longrightarrow>
          (\<exists>e h'. newWithRegisters r 0 h = Inr (e, h') \<and> count fp e h' = Num 15070))"
proof -
  let ?e = "\<lparr>offset = 0, registers = length h\<rparr>"
  let ?h = "h @ [h ! r]"
  have new: "newWithRegisters r 0 h = Inr (?e, ?h)" if "length (h ! r) = 256"
    using that assms(2) by (intro newWithRegisters_copy) simp_all
  have regs: "?h ! registers ?e = h ! r"
    by simp
  have 1: "\<exists>e h'. newWithRegisters r 0 h = Inr (e, h') \<and> count fp e h' = Num 121"
    if "h ! r = registersOfHex vector_go"
  proof -
    have "count fp ?e ?h = Num 121"
      using assms(1) regs that by (intro count_go) simp_all
    moreover have "newWithRegisters r 0 h = Inr (?e, ?h)"
      using that by (intro new) (simp add: length_go)
    ultimately show ?thesis
      by blast
  qed
  have 2: "\<exists>e h'. newWithRegisters r 0 h = Inr (e, h') \<and> count fp e h' = Num 15070"
    if "h ! r = registersOfHex vector_rust"
  proof -
    have "count fp ?e ?h = Num 15070"
      using assms(1) regs that by (intro count_rust) simp_all
    moreover have "newWithRegisters r 0 h = Inr (?e, ?h)"
      using that by (intro new) (simp add: length_rust)
    ultimately show ?thesis
      by blast
  qed
  from 1 2 show ?thesis
    by blast
qed

lemma accurate_exact: "accurate exact"
proof -
  have "0 \<le> x" if "tiny \<le> x" for x
    using that tiny_pos by linarith
  then show ?thesis
    by (simp add: accurate_def exact_def powr_realpow)
qed

theorem known_vectors_witness:
  "accurate exact
 \<and> (0 :: nat) < length [registersOfHex vector_go]
 \<and> [registersOfHex vector_go] ! 0 = registersOfHex vector_go
 \<and> (\<exists>e h'. newWithRegisters 0 0 [registersOfHex vector_go] = Inr (e, h')
        \<and> count exact e h' = Num 121)
 \<and> (0 :: nat) < length [registersOfHex vector_rust]
 \<and> [registersOfHex vector_rust] ! 0 = registersOfHex vector_rust
 \<and> (\<exists>e h'. newWithRegisters 0 0 [registersOfHex vector_rust] = Inr (e, h')
        \<and> count exact e h' = Num 15070)"
proof -
  have a: "accurate exact"
    by (rule accurate_exact)
  have l: "(0 :: nat) < length [registersOfHex vector_go]"
    "(0 :: nat) < length [registersOfHex vector_rust]"
    by simp_all
  have n: "[registersOfHex vector_go] ! 0 = registersOfHex vector_go"
    "[registersOfHex vector_rust] ! 0 = registersOfHex vector_rust"
    by simp_all
  from known_vectors [OF a l(1)] n(1)
  have 1: "\<exists>e h'. newWithRegisters 0 0 [registersOfHex vector_go] = Inr (e, h')
        \<and> count exact e h' = Num 121"
    by blast
  from known_vectors [OF a l(2)] n(2)
  have 2: "\<exists>e h'. newWithRegisters 0 0 [registersOfHex vector_rust] = Inr (e, h')
        \<and> count exact e h' = Num 15070"
    by blast
  from a l n 1 2 show ?thesis
    by blast
qed

section \<open>Properties of nip45.js\<close>

lemma parseInt16_table:
  "\<forall>c \<in> set ''0123456789abcdefABCDEF''.
     parseInt16 c = Some (nibbleValue c) \<and> nibbleValue c < 16"
  by (simp add: parseInt16_def nibbleValue_def)

lemma parseInt16_hexChar:
  assumes "hexChar c"
  shows "parseInt16 c = Some (nibbleValue c) \<and> nibbleValue c < 16"
  using parseInt16_table assms unfolding hexChar_def by (rule bspec)

lemma list_all_mem: "list_all (\<lambda>c. c \<in> A) s \<longleftrightarrow> set s \<subseteq> A"
  by (auto simp: list_all_iff)

lemma isValid32ByteHex_iff: "isValid32ByteHex (Some s) \<longleftrightarrow> isHexKey s"
proof -
  have h: "hexChar = (\<lambda>c. c \<in> set ''0123456789abcdefABCDEF'')"
    by (rule ext) (simp only: hexChar_def)
  have 1: "list_all hexChar s \<longleftrightarrow> set s \<subseteq> set ''0123456789abcdefABCDEF''"
    unfolding h by (rule list_all_mem)
  have 2: "s \<noteq> []" if "length s = 64"
    using that by auto
  have "isValid32ByteHex (Some s) \<longleftrightarrow> length s = 64 \<and> s \<noteq> [] \<and> list_all hexChar s"
    by (simp only: isValid32ByteHex_def option.case)
  with 1 2 show ?thesis
    unfolding isHexKey_def by blast
qed

lemma isHexKey_nth:
  assumes "isHexKey s"
  shows "hexChar (s ! 32)"
proof -
  have "length s = 64"
    using assms unfolding isHexKey_def by (rule conjunct1)
  then have "s ! 32 \<in> set s"
    by (intro nth_mem) simp
  moreover have "set s \<subseteq> set ''0123456789abcdefABCDEF''"
    using assms unfolding isHexKey_def by (rule conjunct2)
  ultimately show ?thesis
    unfolding hexChar_def by (rule subsetD [rotated])
qed

lemma nibbleOffset_eq: "isHexKey v \<Longrightarrow> nibbleOffset v = int (nibbleValue (v ! 32)) + 8"
  using parseInt16_hexChar [OF isHexKey_nth, of v] by (simp add: nibbleOffset_def)

lemma nibble_bound: "isHexKey v \<Longrightarrow> nibbleValue (v ! 32) < 16"
  using parseInt16_hexChar [OF isHexKey_nth, of v] by simp

lemma get_0: "get t 0 = Some name \<longleftrightarrow> t \<noteq> [] \<and> hd t = name"
  by (cases t) (simp_all add: get_def)

lemma get_1: "2 \<le> length t \<Longrightarrow> get t (Suc 0) = Some (t ! Suc 0)"
  by (simp add: get_def)

lemma get_1_None: "\<not> 2 \<le> length t \<Longrightarrow> get t (Suc 0) = None"
  by (simp add: get_def)

lemma yield_eq:
  "(let v = get t (Suc 0) in if isValid32ByteHex v
      then (let p = parseInt16 (the v ! 32) in [(the v, map_option (\<lambda>p. int p + 8) p)])
      else []) = contribution t"
proof (cases "2 \<le> length t")
  case True
  then show ?thesis
    using parseInt16_hexChar [OF isHexKey_nth, of "t ! 1"]
    by (simp add: get_1 contribution_def isValid32ByteHex_iff Let_def)
next
  case False
  then show ?thesis
    by (simp add: get_1_None contribution_def isValid32ByteHex_def)
qed

lemma follows_loop_eq:
  "follows_loop ts = concat (map contribution (filter (\<lambda>t. t \<noteq> [] \<and> hd t = ''p'') ts))"
proof (induction ts)
  case Nil
  show ?case by simp
next
  case (Cons t ts)
  show ?case
  proof (cases "2 \<le> length t")
    case True
    then show ?thesis
      using Cons.IH parseInt16_hexChar [OF isHexKey_nth, of "t ! 1"]
      by (auto simp: get_0 get_1 contribution_def isValid32ByteHex_iff Let_def)
  next
    case False
    then show ?thesis
      using Cons.IH by (auto simp: contribution_def)
  qed
qed

lemma lastE_loop_eq:
  "n \<le> length ts \<Longrightarrow> lastE_loop ts n = last_tag_with ''e'' (take n ts)"
proof (induction n)
  case 0
  show ?case by (simp add: last_tag_with_def)
next
  case (Suc n)
  then have n: "n < length ts" by simp
  have "take (Suc n) ts = take n ts @ [ts ! n]"
    using n by (simp add: take_Suc_conv_app_nth)
  then show ?case
    using Suc.IH n
    by (auto simp: get_0 last_tag_with_def split: list.splits)
qed

lemma find_eq: "find (\<lambda>t. get t 0 = Some ''E'') ts = first_tag_with ''E'' ts"
  by (induction ts) (auto simp: first_tag_with_def get_0 split: list.splits)

text \<open>
  C6: for an event of kind 3 the function yields, in tag order, one pair for every tag
  whose first element is \<open>p\<close> and whose second element is a valid key; for kind 7 at
  most one pair, taken from the last tag whose first element is \<open>e\<close> (nothing when
  that tag has no valid key as second element, whatever the earlier tags are, and nothing
  when there is no such tag); for kind 1111 at most one pair, from the first tag whose
  first element is \<open>E\<close>; for any other kind nothing. The reference of a pair is the
  second element of its tag and its offset is the value of the digit at index 32 of the
  reference plus 8.
\<close>

theorem event_contributions:
  "(kind evt = 3 \<longrightarrow> getEventPubkeyOffsetsAndReferences evt =
      concat (map contribution (filter (\<lambda>t. t \<noteq> [] \<and> hd t = ''p'') (tags evt))))
 \<and> (kind evt = 7 \<longrightarrow> getEventPubkeyOffsetsAndReferences evt =
      (case last_tag_with ''e'' (tags evt) of None \<Rightarrow> [] | Some t \<Rightarrow> contribution t))
 \<and> (kind evt = 1111 \<longrightarrow> getEventPubkeyOffsetsAndReferences evt =
      (case first_tag_with ''E'' (tags evt) of None \<Rightarrow> [] | Some t \<Rightarrow> contribution t))
 \<and> (kind evt \<noteq> 3 \<and> kind evt \<noteq> 7 \<and> kind evt \<noteq> 1111 \<longrightarrow>
      getEventPubkeyOffsetsAndReferences evt = [])
 \<and> (\<forall>r off. (r, off) \<in> set (contribution t) \<longrightarrow>
      r = t ! 1 \<and> isHexKey r \<and> off = Some (int (nibbleValue (r ! 32)) + 8)
      \<and> nibbleValue (r ! 32) < 16)"
proof -
  have 3: "getEventPubkeyOffsetsAndReferences evt =
      concat (map contribution (filter (\<lambda>t. t \<noteq> [] \<and> hd t = ''p'') (tags evt)))"
    if "kind evt = 3"
    using that by (simp add: getEventPubkeyOffsetsAndReferences_def follows_loop_eq)
  have 7: "getEventPubkeyOffsetsAndReferences evt =
      (case last_tag_with ''e'' (tags evt) of None \<Rightarrow> [] | Some t \<Rightarrow> contribution t)"
    if "kind evt = 7"
    using that by (simp add: getEventPubkeyOffsetsAndReferences_def lastE_loop_eq yield_eq
        cong: option.case_cong)
  have 1111: "getEventPubkeyOffsetsAndReferences evt =
      (case first_tag_with ''E'' (tags evt) of None \<Rightarrow> [] | Some t \<Rightarrow> contribution t)"
    if "kind evt = 1111"
    using that by (simp add: getEventPubkeyOffsetsAndReferences_def find_eq yield_eq
        cong: option.case_cong)
  have other: "getEventPubkeyOffsetsAndReferences evt = []"
    if "kind evt \<noteq> 3 \<and> kind evt \<noteq> 7 \<and> kind evt \<noteq> 1111"
    using that by (simp add: getEventPubkeyOffsetsAndReferences_def)
  have c: "r = t ! 1 \<and> isHexKey r \<and> off = Some (int (nibbleValue (r ! 32)) + 8)
      \<and> nibbleValue (r ! 32) < 16" if "(r, off) \<in> set (contribution t)" for r off
    using that nibble_bound [of "t ! 1"] by (auto simp: contribution_def split: if_splits)
  from 3 7 1111 other c show ?thesis
    by blast
qed


lemma startsWith_hash: "startsWith k ''#'' \<longleftrightarrow> k \<noteq> [] \<and> hd k = CHR ''#''"
  by (cases k) (simp_all add: startsWith_def)

lemma eligible_offset:
  assumes "eligible f k kd v"
  shows "getFilterPubkeyOffset f = nibbleOffset v"
proof -
  from assms have ids: "ids f = None \<or> ids f = Some []"
    and authors: "authors f = None \<or> authors f = Some []"
    and since: "since f = None \<or> since f = Some 0"
    and until: "until f = None \<or> until f = Some 0"
    and search: "search f = None \<or> search f = Some []"
    and kinds: "kinds f = Some [kd]"
    and keys: "filter (\<lambda>key. key \<noteq> [] \<and> hd key = CHR ''#'') (map fst (others f)) = [k]"
    and val: "map_of (others f) k = Some (Some [v])"
    and hex: "isHexKey v"
    and pair: "(k = ''#p'' \<and> kd = 3) \<or> (k = ''#e'' \<and> kd = 7) \<or> (k = ''#E'' \<and> kd = 1111)"
    unfolding eligible_def by blast+
  have 1: "\<not> (case ids f of None \<Rightarrow> False | Some l \<Rightarrow> length l > 0)"
    using ids by auto
  have 2: "\<not> (case authors f of None \<Rightarrow> False | Some l \<Rightarrow> length l > 0)"
    using authors by auto
  have 3: "\<not> (case since f of None \<Rightarrow> False | Some n \<Rightarrow> n \<noteq> 0)"
    using since by auto
  have 4: "\<not> (case until f of None \<Rightarrow> False | Some n \<Rightarrow> n \<noteq> 0)"
    using until by auto
  have 5: "\<not> (case search f of None \<Rightarrow> False | Some s \<Rightarrow> s \<noteq> [])"
    using search by auto
  have 6: "\<not> (case kinds f of None \<Rightarrow> True | Some l \<Rightarrow> length l \<noteq> 1)"
    using kinds by simp
  have 7: "filter (\<lambda>k. startsWith k ''#'') (map fst (others f)) = [k]"
    using keys by (simp add: startsWith_hash)
  have 8: "property f k = Some [v]"
    using val by (simp add: property_def)
  have 9: "isValid32ByteHex (get [v] 0)"
    using hex by (simp add: get_def isValid32ByteHex_iff)
  show ?thesis
    unfolding getFilterPubkeyOffset_def Let_def
    using pair 9 8 kinds by (simp only: 1 2 3 4 5 6 7 if_False) auto
qed

lemma offset_eligible:
  assumes "getFilterPubkeyOffset f \<noteq> - 1"
  shows "\<exists>k kd v. eligible f k kd v"
proof -
  have 1: "\<not> (case ids f of None \<Rightarrow> False | Some l \<Rightarrow> length l > 0)"
    using assms by (auto simp: getFilterPubkeyOffset_def)
  have 2: "\<not> (case authors f of None \<Rightarrow> False | Some l \<Rightarrow> length l > 0)"
    using assms 1 by (auto simp: getFilterPubkeyOffset_def)
  have 3: "\<not> (case since f of None \<Rightarrow> False | Some n \<Rightarrow> n \<noteq> 0)"
    using assms 1 2 by (auto simp: getFilterPubkeyOffset_def)
  have 4: "\<not> (case until f of None \<Rightarrow> False | Some n \<Rightarrow> n \<noteq> 0)"
    using assms 1 2 3 by (auto simp: getFilterPubkeyOffset_def)
  have 5: "\<not> (case search f of None \<Rightarrow> False | Some s \<Rightarrow> s \<noteq> [])"
    using assms 1 2 3 4 by (auto simp: getFilterPubkeyOffset_def)
  have 6: "\<not> (case kinds f of None \<Rightarrow> True | Some l \<Rightarrow> length l \<noteq> 1)"
    using assms 1 2 3 4 5 by (auto simp: getFilterPubkeyOffset_def)
  define tagKeys where "tagKeys = filter (\<lambda>k. startsWith k ''#'') (map fst (others f))"
  define rest where "rest =
       (let tagKey = tagKeys ! 0;
                   tagValues = property f tagKey
               in if (case tagValues of None \<Rightarrow> True
                      | Some l \<Rightarrow> length l \<noteq> 1 \<or> \<not> isValid32ByteHex (get l 0))
                  then - 1
                  else
                    (let kind = the (kinds f) ! 0
                     in if tagKey = ''#p'' then
                          (if kind = 3 then nibbleOffset (the tagValues ! 0) else - 1)
                        else if tagKey = ''#e'' then
                          (if kind = 7 then nibbleOffset (the tagValues ! 0) else - 1)
                        else if tagKey = ''#E'' then
                          (if kind = 1111 then nibbleOffset (the tagValues ! 0) else - 1)
                        else - 1))"
  have eq: "getFilterPubkeyOffset f = (if length tagKeys \<noteq> 1 then - 1 else rest)"
    unfolding getFilterPubkeyOffset_def rest_def tagKeys_def
    by (simp only: 1 2 3 4 5 6 if_False Let_def)
  from assms eq have len: "length tagKeys = 1" and rest: "rest \<noteq> - 1"
    by (auto split: if_splits)
  from len obtain k where k: "tagKeys = [k]"
    by (cases tagKeys) auto
  from 6 obtain kd where kd: "kinds f = Some [kd]"
    by (cases "kinds f") (auto simp: length_Suc_conv)
  from rest have "\<not> (case property f k of None \<Rightarrow> True
                      | Some l \<Rightarrow> length l \<noteq> 1 \<or> \<not> isValid32ByteHex (get l 0))"
    unfolding rest_def k by (auto simp: Let_def)
  then obtain v where v: "property f k = Some [v]" and hex: "isHexKey v"
    by (cases "property f k") (auto simp: length_Suc_conv get_def isValid32ByteHex_iff)
  from rest have pair: "(k = ''#p'' \<and> kd = 3) \<or> (k = ''#e'' \<and> kd = 7) \<or> (k = ''#E'' \<and> kd = 1111)"
    unfolding rest_def k by (simp add: Let_def v kd split: if_splits)
  have val: "map_of (others f) k = Some (Some [v])"
    using v by (auto simp: property_def split: option.splits)
  have "eligible f k kd v"
    unfolding eligible_def
    using 1 2 3 4 5 kd k val hex pair
    by (auto simp: tagKeys_def startsWith_hash split: option.splits)
  then show ?thesis
    by blast
qed


theorem event_contributions_witness:
  "kind \<lparr>kind = 3, tags = [[''p'', replicate 64 CHR ''a''], [''p'', ''invalid''], [''e'', replicate 64 CHR ''a'']]\<rparr> = 3
 \<and> getEventPubkeyOffsetsAndReferences
      \<lparr>kind = 3, tags = [[''p'', replicate 64 CHR ''a''], [''p'', ''invalid''], [''e'', replicate 64 CHR ''a'']]\<rparr>
     = [(replicate 64 CHR ''a'', Some 18)]
 \<and> kind \<lparr>kind = 7, tags = [[''e'', replicate 64 CHR ''1''], [''e'', replicate 64 CHR ''b''], [''p'', replicate 64 CHR ''1'']]\<rparr> = 7
 \<and> getEventPubkeyOffsetsAndReferences
      \<lparr>kind = 7, tags = [[''e'', replicate 64 CHR ''1''], [''e'', replicate 64 CHR ''b''], [''p'', replicate 64 CHR ''1'']]\<rparr>
     = [(replicate 64 CHR ''b'', Some 19)]
 \<and> kind \<lparr>kind = 1111, tags = [[''E'', replicate 64 CHR ''c''], [''E'', ''other'']]\<rparr> = 1111
 \<and> getEventPubkeyOffsetsAndReferences
      \<lparr>kind = 1111, tags = [[''E'', replicate 64 CHR ''c''], [''E'', ''other'']]\<rparr>
     = [(replicate 64 CHR ''c'', Some 20)]
 \<and> kind \<lparr>kind = 1, tags = [[''p'', replicate 64 CHR ''a'']]\<rparr> \<noteq> 3
 \<and> kind \<lparr>kind = 1, tags = [[''p'', replicate 64 CHR ''a'']]\<rparr> \<noteq> 7
 \<and> kind \<lparr>kind = 1, tags = [[''p'', replicate 64 CHR ''a'']]\<rparr> \<noteq> 1111
 \<and> getEventPubkeyOffsetsAndReferences \<lparr>kind = 1, tags = [[''p'', replicate 64 CHR ''a'']]\<rparr> = []
 \<and> (replicate 64 CHR ''a'', Some 18) \<in> set (contribution [''p'', replicate 64 CHR ''a''])
 \<and> isHexKey (replicate 64 CHR ''a'')"
proof -
  have hex: "isHexKey (replicate 64 c)" if "hexChar c" for c
    using that unfolding isHexKey_def hexChar_def by simp
  have c: "contribution [n, replicate 64 c] = [(replicate 64 c, Some (int (nibbleValue c) + 8))]"
    if "hexChar c" for n c
    using hex [OF that] by (simp add: contribution_def)
  have n: "\<not> isHexKey ''invalid''" "\<not> isHexKey ''other''"
    by (simp_all add: isHexKey_def)
  have v: "hexChar CHR ''a''" "hexChar CHR ''b''" "hexChar CHR ''c''" "hexChar CHR ''1''"
    "nibbleValue CHR ''a'' = 10" "nibbleValue CHR ''b'' = 11" "nibbleValue CHR ''c'' = 12"
    by (simp_all add: hexChar_def nibbleValue_def)
  let ?e3 = "\<lparr>kind = 3, tags = [[''p'', replicate 64 CHR ''a''], [''p'', ''invalid''], [''e'', replicate 64 CHR ''a'']]\<rparr>"
  let ?e7 = "\<lparr>kind = 7, tags = [[''e'', replicate 64 CHR ''1''], [''e'', replicate 64 CHR ''b''], [''p'', replicate 64 CHR ''1'']]\<rparr>"
  let ?e1111 = "\<lparr>kind = 1111, tags = [[''E'', replicate 64 CHR ''c''], [''E'', ''other'']]\<rparr>"
  let ?e1 = "\<lparr>kind = 1, tags = [[''p'', replicate 64 CHR ''a'']]\<rparr>"
  have 3: "getEventPubkeyOffsetsAndReferences ?e3 = [(replicate 64 CHR ''a'', Some 18)]"
    using event_contributions [of ?e3] by (simp add: c v) (simp add: contribution_def n)
  have 7: "getEventPubkeyOffsetsAndReferences ?e7 = [(replicate 64 CHR ''b'', Some 19)]"
    using event_contributions [of ?e7] by (simp add: last_tag_with_def c v)
  have 1111: "getEventPubkeyOffsetsAndReferences ?e1111 = [(replicate 64 CHR ''c'', Some 20)]"
    using event_contributions [of ?e1111] by (simp add: first_tag_with_def c v)
  have 1: "getEventPubkeyOffsetsAndReferences ?e1 = []"
    using event_contributions [of ?e1] by simp
  have m: "(replicate 64 CHR ''a'', Some 18) \<in> set (contribution [''p'', replicate 64 CHR ''a''])"
    by (simp add: c v)
  have h: "isHexKey (replicate 64 CHR ''a'')"
    using event_contributions [of _ "[''p'', replicate 64 CHR ''a'']"] m by blast
  from 3 7 1111 1 m h show ?thesis
    by simp
qed

text \<open>
  C5: \<^verbatim>\<open>getFilterPubkeyOffset\<close> returns the value of the digit at index 32 of the key
  plus 8 when the filter is eligible, and \<open>-1\<close> when it is not; it is a total function
  and has no failure.
\<close>

theorem filter_offset:
  "(eligible f k kd v \<longrightarrow>
      getFilterPubkeyOffset f = int (nibbleValue (v ! 32)) + 8 \<and> nibbleValue (v ! 32) < 16)
 \<and> ((\<forall>k kd v. \<not> eligible f k kd v) \<longrightarrow> getFilterPubkeyOffset f = - 1)"
proof -
  have 1: "getFilterPubkeyOffset f = int (nibbleValue (v ! 32)) + 8 \<and> nibbleValue (v ! 32) < 16"
    if "eligible f k kd v"
  proof -
    from that have "isHexKey v"
      unfolding eligible_def by blast
    then show ?thesis
      using eligible_offset [OF that] by (simp add: nibbleOffset_eq nibble_bound)
  qed
  have 2: "getFilterPubkeyOffset f = - 1" if "\<forall>k kd v. \<not> eligible f k kd v"
    using that offset_eligible [of f] by blast
  from 1 2 show ?thesis
    by blast
qed

theorem filter_offset_witness:
  "eligible \<lparr>ids = None, authors = None, kinds = Some [3], since = None, until = None,
             limit = None, search = None, others = [(''#p'', Some [replicate 64 CHR ''d''])]\<rparr>
     ''#p'' 3 (replicate 64 CHR ''d'')
 \<and> getFilterPubkeyOffset
      \<lparr>ids = None, authors = None, kinds = Some [3], since = None, until = None,
       limit = None, search = None, others = [(''#p'', Some [replicate 64 CHR ''d''])]\<rparr> = 21
 \<and> (\<forall>k kd v. \<not> eligible
      \<lparr>ids = None, authors = Some [''abc''], kinds = Some [3], since = None, until = None,
       limit = None, search = None, others = [(''#p'', Some [replicate 64 CHR ''a''])]\<rparr> k kd v)
 \<and> getFilterPubkeyOffset
      \<lparr>ids = None, authors = Some [''abc''], kinds = Some [3], since = None, until = None,
       limit = None, search = None, others = [(''#p'', Some [replicate 64 CHR ''a''])]\<rparr> = - 1"
proof -
  let ?f = "\<lparr>ids = None, authors = None, kinds = Some [3], since = None, until = None,
             limit = None, search = None, others = [(''#p'', Some [replicate 64 CHR ''d''])]\<rparr>"
  let ?g = "\<lparr>ids = None, authors = Some [''abc''], kinds = Some [3], since = None, until = None,
       limit = None, search = None, others = [(''#p'', Some [replicate 64 CHR ''a''])]\<rparr>"
  have "isHexKey (replicate 64 CHR ''d'')"
    unfolding isHexKey_def by simp
  then have e: "eligible ?f ''#p'' 3 (replicate 64 CHR ''d'')"
    by (simp add: eligible_def)
  have n: "\<forall>k kd v. \<not> eligible ?g k kd v"
    by (simp add: eligible_def)
  have "nibbleValue CHR ''d'' = 13"
    by (simp add: nibbleValue_def)
  with filter_offset [of ?f "''#p''" 3 "replicate 64 CHR ''d''"] e
  have 1: "getFilterPubkeyOffset ?f = 21"
    by simp
  from filter_offset [of ?g] n have 2: "getFilterPubkeyOffset ?g = - 1"
    by blast
  from e 1 n 2 show ?thesis
    by blast
qed

end
